theory Spec2Isabelle
  imports Complex_Main
begin

section \<open>Python values\<close>

text \<open>
  A Python \<open>str\<close> is a sequence of Unicode code points, a \<open>bytes\<close> object a sequence of
  8-bit values. String literals of the source are written \<open>lit ''...''\<close>.
\<close>

type_synonym pystr = "nat list"
type_synonym bytes = "string"

definition lit :: "string \<Rightarrow> pystr" where
  "lit s = map of_char s"


text \<open>
  The objects that \<open>json.loads\<close> produces and that the handlers pass around. A float is
  kept as the decimal text that denotes it (what \<open>float.__repr__\<close> prints and
  \<open>json.dumps\<close> emits); a dictionary is the list of its items in insertion order.
\<close>

datatype pyval =
    PNone
  | PBool bool
  | PInt int
  | PFloat pystr
  | PStr pystr
  | PList "pyval list"
  | PDict "(pystr \<times> pyval) list"

text \<open>
  The exceptions that the modelled code can raise. \<open>OtherException\<close> stands for an
  exception of a class that no handler of the program names, with its message.
\<close>

datatype pyexn =
    HTTPException int pyval
  | ZeroDivisionError
  | JSONDecodeError
  | UnicodeDecodeError
  | UnicodeEncodeError
  | AttributeError
  | ValueError
  | RedisError
  | RequestValidationError
  | OtherException pystr

text \<open>
  Truth value testing. A float literal is zero when its mantissa has no non-zero digit
  (literals so small that they round to zero are not distinguished).
\<close>

definition float_truthy :: "pystr \<Rightarrow> bool" where
  "float_truthy f \<longleftrightarrow>
     (\<exists>c \<in> set (takeWhile (\<lambda>c. c \<noteq> 101 \<and> c \<noteq> 69) f). (49 \<le> c \<and> c \<le> 57) \<or> c = 78 \<or> c = 73)"

fun truthy :: "pyval \<Rightarrow> bool" where
  "truthy PNone = False"
| "truthy (PBool b) = b"
| "truthy (PInt i) = (i \<noteq> 0)"
| "truthy (PFloat f) = float_truthy f"
| "truthy (PStr s) = (s \<noteq> [])"
| "truthy (PList xs) = (xs \<noteq> [])"
| "truthy (PDict kvs) = (kvs \<noteq> [])"

text \<open>Dictionary operations: \<open>k in d\<close>, \<open>d.get(k, default)\<close>, \<open>d[k] = v\<close>.\<close>

definition dict_has :: "(pystr \<times> pyval) list \<Rightarrow> pystr \<Rightarrow> bool" where
  "dict_has d k \<longleftrightarrow> map_of d k \<noteq> None"

definition dict_get :: "(pystr \<times> pyval) list \<Rightarrow> pystr \<Rightarrow> pyval \<Rightarrow> pyval" where
  "dict_get d k dflt = (case map_of d k of Some v \<Rightarrow> v | None \<Rightarrow> dflt)"

fun dict_set :: "(pystr \<times> pyval) list \<Rightarrow> pystr \<Rightarrow> pyval \<Rightarrow> (pystr \<times> pyval) list" where
  "dict_set [] k v = [(k, v)]"
| "dict_set ((k', v') # d) k v = (if k' = k then (k, v) # d else (k', v') # dict_set d k v)"

text \<open>\<open>str(i)\<close> and \<open>f"{i}"\<close> for an integer: its decimal digits.\<close>

fun digits :: "nat \<Rightarrow> pystr" where
  "digits n = (if n < 10 then [48 + n] else digits (n div 10) @ [48 + n mod 10])"

declare digits.simps [simp del]

definition str_int :: "int \<Rightarrow> pystr" where
  "str_int i = (if i < 0 then 45 # digits (nat (- i)) else digits (nat i))"

section \<open>UTF-8 (\<open>bytes.decode("utf-8")\<close>, \<open>str.encode("utf-8")\<close>)\<close>

definition cont :: "nat \<Rightarrow> bool" where
  "cont b \<longleftrightarrow> 128 \<le> b \<and> b < 192"

text \<open>
  The strict decoder: shortest form only, no surrogates, nothing above U+10FFFF.
  \<open>None\<close> stands for \<open>UnicodeDecodeError\<close>.
\<close>

fun utf8_dec :: "nat list \<Rightarrow> pystr option" where
  "utf8_dec [] = Some []"
| "utf8_dec (b0 # bs) =
     (if b0 < 128 then map_option ((#) b0) (utf8_dec bs)
      else if 194 \<le> b0 \<and> b0 < 224 then
        (case bs of
           b1 # r \<Rightarrow>
             if cont b1 then map_option ((#) ((b0 - 192) * 64 + (b1 - 128))) (utf8_dec r)
             else None
         | _ \<Rightarrow> None)
      else if 224 \<le> b0 \<and> b0 < 240 then
        (case bs of
           b1 # b2 # r \<Rightarrow>
             (let c = (b0 - 224) * 4096 + (b1 - 128) * 64 + (b2 - 128)
              in if cont b1 \<and> cont b2 \<and> 2048 \<le> c \<and> \<not> (55296 \<le> c \<and> c < 57344)
                 then map_option ((#) c) (utf8_dec r) else None)
         | _ \<Rightarrow> None)
      else if 240 \<le> b0 \<and> b0 < 245 then
        (case bs of
           b1 # b2 # b3 # r \<Rightarrow>
             (let c = (b0 - 240) * 262144 + (b1 - 128) * 4096 + (b2 - 128) * 64 + (b3 - 128)
              in if cont b1 \<and> cont b2 \<and> cont b3 \<and> 65536 \<le> c \<and> c < 1114112
                 then map_option ((#) c) (utf8_dec r) else None)
         | _ \<Rightarrow> None)
      else None)"

text \<open>The encoder; \<open>None\<close> stands for \<open>UnicodeEncodeError\<close> (a surrogate code point).\<close>

definition enc_cp :: "nat \<Rightarrow> nat list option" where
  "enc_cp c =
     (if c < 128 then Some [c]
      else if c < 2048 then Some [192 + c div 64, 128 + c mod 64]
      else if 55296 \<le> c \<and> c < 57344 then None
      else if c < 65536 then
        Some [224 + c div 4096, 128 + (c div 64) mod 64, 128 + c mod 64]
      else if c < 1114112 then
        Some [240 + c div 262144, 128 + (c div 4096) mod 64, 128 + (c div 64) mod 64,
              128 + c mod 64]
      else None)"

fun utf8_enc :: "pystr \<Rightarrow> nat list option" where
  "utf8_enc [] = Some []"
| "utf8_enc (c # cs) =
     (case enc_cp c of
        None \<Rightarrow> None
      | Some b \<Rightarrow> map_option ((@) b) (utf8_enc cs))"

definition utf8_decode :: "bytes \<Rightarrow> pystr option" where
  "utf8_decode bs = utf8_dec (map of_char bs)"

definition utf8_encode :: "pystr \<Rightarrow> bytes option" where
  "utf8_encode s = map_option (map char_of) (utf8_enc s)"

section \<open>JSON (\<open>json.dumps\<close>, \<open>json.loads\<close>)\<close>

subsection \<open>Serialisation\<close>

text \<open>
  \<open>json.dumps\<close> with its defaults: ASCII-only output (\<open>ensure_ascii\<close>), item separator
  \<open>", "\<close> and key separator \<open>": "\<close>. Code points: 34 is the double quote, 92 the
  backslash, 117 the letter u.
\<close>

definition hex_digit :: "nat \<Rightarrow> nat" where
  "hex_digit d = (if d < 10 then 48 + d else 87 + d)"

definition hex4 :: "nat \<Rightarrow> pystr" where
  "hex4 n = [hex_digit (n div 4096), hex_digit ((n div 256) mod 16),
             hex_digit ((n div 16) mod 16), hex_digit (n mod 16)]"

definition escape_char :: "nat \<Rightarrow> pystr" where
  "escape_char c =
     (if c = 92 then [92, 92]
      else if c = 34 then [92, 34]
      else if c = 8 then [92, 98]
      else if c = 12 then [92, 102]
      else if c = 10 then [92, 110]
      else if c = 13 then [92, 114]
      else if c = 9 then [92, 116]
      else if 32 \<le> c \<and> c \<le> 126 then [c]
      else if c < 65536 then 92 # 117 # hex4 c
      else (let n = c - 65536
            in 92 # 117 # hex4 (55296 + (n div 1024) mod 1024)
               @ 92 # 117 # hex4 (56320 + n mod 1024)))"

definition encode_basestring_ascii :: "pystr \<Rightarrow> pystr" where
  "encode_basestring_ascii s = 34 # concat (map escape_char s) @ [34]"

fun join :: "pystr \<Rightarrow> pystr list \<Rightarrow> pystr" where
  "join sep [] = []"
| "join sep [x] = x"
| "join sep (x # y # ys) = x @ sep @ join sep (y # ys)"

fun json_dumps :: "pyval \<Rightarrow> pystr" where
  "json_dumps PNone = lit ''null''"
| "json_dumps (PBool b) = (if b then lit ''true'' else lit ''false'')"
| "json_dumps (PInt i) = str_int i"
| "json_dumps (PFloat f) = f"
| "json_dumps (PStr s) = encode_basestring_ascii s"
| "json_dumps (PList xs) = 91 # join (lit '', '') (map json_dumps xs) @ [93]"
| "json_dumps (PDict kvs) =
     123 # join (lit '', '')
             (map (\<lambda>kv. encode_basestring_ascii (fst kv) @ lit '': '' @ json_dumps (snd kv)) kvs)
       @ [125]"

subsection \<open>Parsing\<close>

definition is_ws :: "nat \<Rightarrow> bool" where
  "is_ws c \<longleftrightarrow> c = 32 \<or> c = 9 \<or> c = 10 \<or> c = 13"

definition is_digit :: "nat \<Rightarrow> bool" where
  "is_digit c \<longleftrightarrow> 48 \<le> c \<and> c \<le> 57"

definition skip_ws :: "pystr \<Rightarrow> pystr" where
  "skip_ws s = dropWhile is_ws s"

fun strip_prefix :: "pystr \<Rightarrow> pystr \<Rightarrow> pystr option" where
  "strip_prefix [] s = Some s"
| "strip_prefix (p # ps) [] = None"
| "strip_prefix (p # ps) (c # cs) = (if p = c then strip_prefix ps cs else None)"

definition hex_val :: "nat \<Rightarrow> nat option" where
  "hex_val c =
     (if 48 \<le> c \<and> c \<le> 57 then Some (c - 48)
      else if 97 \<le> c \<and> c \<le> 102 then Some (c - 87)
      else if 65 \<le> c \<and> c \<le> 70 then Some (c - 55)
      else None)"

fun decode_uXXXX :: "pystr \<Rightarrow> nat option" where
  "decode_uXXXX (a # b # c # d # r) =
     (case (hex_val a, hex_val b, hex_val c, hex_val d) of
        (Some x, Some y, Some z, Some w) \<Rightarrow> Some (x * 4096 + y * 256 + z * 16 + w)
      | _ \<Rightarrow> None)"
| "decode_uXXXX _ = None"

definition unescape :: "nat \<Rightarrow> nat option" where
  "unescape e =
     (if e = 34 then Some 34
      else if e = 92 then Some 92
      else if e = 47 then Some 47
      else if e = 98 then Some 8
      else if e = 102 then Some 12
      else if e = 110 then Some 10
      else if e = 114 then Some 13
      else if e = 116 then Some 9
      else None)"

definition cons_str :: "nat \<Rightarrow> (pystr \<times> pystr) option \<Rightarrow> (pystr \<times> pystr) option" where
  "cons_str c res = map_option (\<lambda>(str, r). (c # str, r)) res"

text \<open>
  The string scanner, entered after the opening quote (strict mode: a raw control
  character is an error). It returns the decoded string and the text after the
  closing quote. A high surrogate escape directly followed by a low surrogate escape
  is one code point.
\<close>

function scanstring :: "pystr \<Rightarrow> (pystr \<times> pystr) option" where
  "scanstring [] = None"
| "scanstring (c # cs) =
     (if c = 34 then Some ([], cs)
      else if c = 92 then
        (case cs of
           [] \<Rightarrow> None
         | e # r \<Rightarrow>
             if e = 117 then
               (case decode_uXXXX r of
                  None \<Rightarrow> None
                | Some uni \<Rightarrow>
                    if 55296 \<le> uni \<and> uni \<le> 56319 \<and> take 2 (drop 4 r) = [92, 117] then
                      (case decode_uXXXX (drop 6 r) of
                         None \<Rightarrow> None
                       | Some uni2 \<Rightarrow>
                           if 56320 \<le> uni2 \<and> uni2 \<le> 57343 then
                             cons_str (65536 + ((uni - 55296) * 1024 + (uni2 - 56320)))
                               (scanstring (drop 10 r))
                           else cons_str uni (scanstring (drop 4 r)))
                    else cons_str uni (scanstring (drop 4 r)))
             else
               (case unescape e of
                  None \<Rightarrow> None
                | Some ch \<Rightarrow> cons_str ch (scanstring r)))
      else if c < 32 then None
      else cons_str c (scanstring cs))"
  by pat_completeness auto
termination
  by (relation "measure length") auto

text \<open>
  Numbers: \<open>-?(0|[1-9][0-9]*)(\.[0-9]+)?([eE][-+]?[0-9]+)?\<close>, the longest match. Without
  fraction and exponent the literal is an \<open>int\<close>, otherwise a \<open>float\<close>.
\<close>

definition digits_val :: "pystr \<Rightarrow> nat" where
  "digits_val ds = foldl (\<lambda>a d. 10 * a + (d - 48)) 0 ds"

definition scan_frac :: "pystr \<Rightarrow> pystr \<times> pystr" where
  "scan_frac s =
     (case s of
        c # d # r \<Rightarrow>
          if c = 46 \<and> is_digit d then (c # d # takeWhile is_digit r, dropWhile is_digit r)
          else ([], s)
      | _ \<Rightarrow> ([], s))"

definition scan_exp :: "pystr \<Rightarrow> pystr \<times> pystr" where
  "scan_exp s =
     (case s of
        c # sg # r \<Rightarrow>
          if c = 101 \<or> c = 69 then
            (if is_digit sg then (c # sg # takeWhile is_digit r, dropWhile is_digit r)
             else if sg = 43 \<or> sg = 45 then
               (case r of
                  d # r' \<Rightarrow>
                    if is_digit d
                    then (c # sg # d # takeWhile is_digit r', dropWhile is_digit r')
                    else ([], s)
                | [] \<Rightarrow> ([], s))
             else ([], s))
          else ([], s)
      | _ \<Rightarrow> ([], s))"

definition scan_number :: "pystr \<Rightarrow> (pyval \<times> pystr) option" where
  "scan_number s =
     (let neg = (case s of c # r \<Rightarrow> c = 45 | [] \<Rightarrow> False);
          s1 = (if neg then tl s else s)
      in case s1 of
           [] \<Rightarrow> None
         | d # r \<Rightarrow>
             if \<not> is_digit d then None
             else
               (let ip = (if d = 48 then [d] else d # takeWhile is_digit r);
                    s2 = (if d = 48 then r else dropWhile is_digit r);
                    (fp, s3) = scan_frac s2;
                    (ep, s4) = scan_exp s3
                in if fp = [] \<and> ep = []
                   then Some (PInt (if neg then - int (digits_val ip) else int (digits_val ip)), s4)
                   else Some (PFloat ((if neg then [45] else []) @ ip @ fp @ ep), s4)))"

text \<open>The constants and numbers, in the order in which the scanner tries them.\<close>

definition scan_atom :: "pystr \<Rightarrow> (pyval \<times> pystr) option" where
  "scan_atom s =
     (case strip_prefix (lit ''null'') s of Some r \<Rightarrow> Some (PNone, r) | None \<Rightarrow>
      case strip_prefix (lit ''true'') s of Some r \<Rightarrow> Some (PBool True, r) | None \<Rightarrow>
      case strip_prefix (lit ''false'') s of Some r \<Rightarrow> Some (PBool False, r) | None \<Rightarrow>
      case scan_number s of Some x \<Rightarrow> Some x | None \<Rightarrow>
      case strip_prefix (lit ''NaN'') s of Some r \<Rightarrow> Some (PFloat (lit ''NaN''), r) | None \<Rightarrow>
      case strip_prefix (lit ''Infinity'') s of
        Some r \<Rightarrow> Some (PFloat (lit ''Infinity''), r) | None \<Rightarrow>
      case strip_prefix (lit ''-Infinity'') s of
        Some r \<Rightarrow> Some (PFloat (lit ''-Infinity''), r) | None \<Rightarrow> None)"

text \<open>
  The recursive scanner. The first argument bounds the number of nested calls;
  \<open>json_loads\<close> starts it high enough for the length of its input. \<open>parse_elems\<close> is
  entered at the first element of an array, \<open>parse_members\<close> after the opening quote
  of a key. Code points: 123 and 125 are the braces, 91 and 93 the brackets, 58 the
  colon, 44 the comma.
\<close>

fun parse_value :: "nat \<Rightarrow> pystr \<Rightarrow> (pyval \<times> pystr) option"
  and parse_elems :: "nat \<Rightarrow> pyval list \<Rightarrow> pystr \<Rightarrow> (pyval \<times> pystr) option"
  and parse_members :: "nat \<Rightarrow> (pystr \<times> pyval) list \<Rightarrow> pystr \<Rightarrow> (pyval \<times> pystr) option"
where
  "parse_value 0 s = None"
| "parse_value (Suc n) [] = None"
| "parse_value (Suc n) (c # r) =
     (if c = 34 then map_option (\<lambda>(str, r'). (PStr str, r')) (scanstring r)
      else if c = 123 then
        (case skip_ws r of
           [] \<Rightarrow> None
         | c' # r' \<Rightarrow>
             if c' = 125 then Some (PDict [], r')
             else if c' = 34 then parse_members n [] r'
             else None)
      else if c = 91 then
        (case skip_ws r of
           [] \<Rightarrow> None
         | c' # r' \<Rightarrow>
             if c' = 93 then Some (PList [], r')
             else parse_elems n [] (c' # r'))
      else scan_atom (c # r))"
| "parse_elems 0 acc s = None"
| "parse_elems (Suc n) acc s =
     (case parse_value n s of
        None \<Rightarrow> None
      | Some (v, r) \<Rightarrow>
          (case skip_ws r of
             [] \<Rightarrow> None
           | c # r' \<Rightarrow>
               if c = 93 then Some (PList (acc @ [v]), r')
               else if c = 44 then parse_elems n (acc @ [v]) (skip_ws r')
               else None))"
| "parse_members 0 acc s = None"
| "parse_members (Suc n) acc s =
     (case scanstring s of
        None \<Rightarrow> None
      | Some (key, r) \<Rightarrow>
          (case skip_ws r of
             [] \<Rightarrow> None
           | c # r1 \<Rightarrow>
               if c \<noteq> 58 then None
               else
                 (case parse_value n (skip_ws r1) of
                    None \<Rightarrow> None
                  | Some (v, r2) \<Rightarrow>
                      (case skip_ws r2 of
                         [] \<Rightarrow> None
                       | c' # r3 \<Rightarrow>
                           if c' = 125 then Some (PDict (dict_set acc key v), r3)
                           else if c' = 44 then
                             (case skip_ws r3 of
                                [] \<Rightarrow> None
                              | q # r4 \<Rightarrow>
                                  if q = 34 then parse_members n (dict_set acc key v) r4
                                  else None)
                           else None))))"

text \<open>
  \<open>json.loads\<close> of a \<open>str\<close>: one value between optional whitespace, nothing after it.
  \<open>None\<close> stands for \<open>JSONDecodeError\<close>.
\<close>

definition json_loads :: "pystr \<Rightarrow> pyval option" where
  "json_loads s =
     (case parse_value (2 * length s + 2) (skip_ws s) of
        None \<Rightarrow> None
      | Some (v, r) \<Rightarrow> if skip_ws r = [] then Some v else None)"

section \<open>Pagination overlay (\<open>paginate_data\<close>, main.py)\<close>

text \<open>
  Python's \<open>items[start:end]\<close> for integer bounds: a negative bound counts from the
  end, and both bounds are clamped to \<open>0 .. len(items)\<close>.
\<close>

definition slice_bound :: "int \<Rightarrow> int \<Rightarrow> int" where
  "slice_bound n i = (if i < 0 then max 0 (i + n) else min i n)"

definition py_slice :: "'a list \<Rightarrow> int \<Rightarrow> int \<Rightarrow> 'a list" where
  "py_slice items start end' =
     (let n = int (length items);
          s = slice_bound n start;
          e = slice_bound n end'
      in take (nat (e - s)) (drop (nat s) items))"

text \<open>
  The dictionary returned by \<open>paginate_data\<close>; the fields are the keys \<open>"data"\<close>,
  \<open>"total"\<close>, \<open>"page"\<close>, \<open>"limit"\<close> and \<open>"total_pages"\<close>.
\<close>

record 'a page_dict =
  pg_data :: "'a list"
  pg_total :: int
  pg_page :: int
  pg_limit :: int
  pg_total_pages :: int

text \<open>Python's \<open>//\<close> is floor division, as \<open>div\<close> on \<open>int\<close>; by zero it raises.\<close>

definition paginate_data :: "'a list \<Rightarrow> int \<Rightarrow> int \<Rightarrow> pyexn + 'a page_dict" where
  "paginate_data items page limit =
     (let total = int (length items);
          start = (page - 1) * limit;
          end' = start + limit
      in if limit = 0 then Inl ZeroDivisionError
         else Inr \<lparr> pg_data = py_slice items start end',
                    pg_total = total,
                    pg_page = page,
                    pg_limit = limit,
                    pg_total_pages = (total + limit - 1) div limit \<rparr>)"

section \<open>The environment: cache store, origin, clock\<close>

text \<open>
  The Redis store maps keys to text (the client is created with
  \<open>decode_responses=True\<close>). Whether a call on the store fails, what the origin answers
  to a URL and what the clock shows are given by the environment of one request.
\<close>

type_synonym store = "pystr \<Rightarrow> pystr option"

text \<open>
  An \<open>httpx\<close> response. What the library derives from the body is part of the response:
  \<open>resp_text\<close> is its decoding of the body (\<open>resp.text\<close>), \<open>resp_json\<close> is what
  \<open>resp.json()\<close> gives, the parsed value or the exception that the call raises (the library
  finds the encoding of the bytes itself before it parses them). \<open>content_type\<close> is the
  \<open>Content-Type\<close> header that the origin sent.
\<close>

record response =
  status_code :: int
  content :: bytes
  resp_text :: pystr
  resp_json :: "pyexn + pyval"
  content_type :: pystr

text \<open>
  \<open>client.get(url)\<close> raises \<open>httpx.RequestError\<close> (with its message), or raises an
  exception of another class (\<open>httpx.InvalidURL\<close> for a URL with a control character is
  not a \<open>RequestError\<close>), or answers.
\<close>

datatype origin_outcome = RequestError pystr | OtherError pystr | Responded response

text \<open>
  \<open>status_phrase\<close> is the table of \<open>http.HTTPStatus\<close>: the phrase of a status code,
  \<open>None\<close> for a code that is no member of it.
\<close>

record env =
  registry_url :: pystr
  origin_get :: "pystr \<Rightarrow> origin_outcome"
  status_phrase :: "int \<Rightarrow> pystr option"
  redis_get_fails :: bool
  redis_set_fails :: bool
  clock :: pystr

datatype event = RedisGet pystr | RedisSet pystr pystr | OriginGet pystr

definition redis_get :: "env \<Rightarrow> store \<Rightarrow> pystr \<Rightarrow> pyexn + pystr option" where
  "redis_get e st key = (if redis_get_fails e then Inl RedisError else Inr (st key))"

definition redis_set :: "env \<Rightarrow> store \<Rightarrow> pystr \<Rightarrow> pystr \<Rightarrow> (pyexn + unit) \<times> store" where
  "redis_set e st key v =
     (if redis_set_fails e then (Inl RedisError, st) else (Inr (), st(key \<mapsto> v)))"

text \<open>
  \<open>HTTPException(status_code, detail)\<close>: the constructor replaces a detail that is
  \<open>None\<close> by \<open>http.HTTPStatus(status_code).phrase\<close>, and that lookup raises
  \<open>ValueError\<close> for a code that is no member of the table.
\<close>

definition http_exception :: "env \<Rightarrow> int \<Rightarrow> pyval \<Rightarrow> pyexn" where
  "http_exception e code detail =
     (if detail = PNone then
        (case status_phrase e code of
           None \<Rightarrow> ValueError
         | Some phrase \<Rightarrow> HTTPException code (PStr phrase))
      else HTTPException code detail)"

section \<open>Origin client (\<open>forward_request\<close>, main.py)\<close>

text \<open>
  What \<open>forward_request\<close> returns: \<open>resp.content\<close> or \<open>resp.json()\<close>. Its only handler
  is for \<open>httpx.RequestError\<close>: every other exception raised inside leaves the function
  as it is.
\<close>

datatype body = Bytes bytes | Obj pyval

definition forward_request ::
  "env \<Rightarrow> pystr \<Rightarrow> pystr \<Rightarrow> bool \<Rightarrow> (pyexn + body) \<times> event list" where
  "forward_request e method path raw =
     (if method = lit ''GET'' then
        (let url = registry_url e @ path
         in case origin_get e url of
              RequestError exc \<Rightarrow>
                (Inl (http_exception e 503 (PStr (lit ''Upstream server unavailable: '' @ exc))),
                 [OriginGet url])
            | OtherError exc \<Rightarrow> (Inl (OtherException exc), [OriginGet url])
            | Responded resp \<Rightarrow>
                if status_code resp \<ge> 400 then
                  (let error_detail =
                         (case resp_json resp of
                            Inr (PDict d) \<Rightarrow>
                              dict_get d (lit ''detail'') (PStr (lit ''Error from upstream server''))
                          | _ \<Rightarrow>
                              PStr (if resp_text resp \<noteq> [] then resp_text resp
                                    else lit ''Error from upstream server''))
                   in (Inl (http_exception e (status_code resp) error_detail), [OriginGet url]))
                else if raw then (Inr (Bytes (content resp)), [OriginGet url])
                else
                  (case resp_json resp of
                     Inl ex \<Rightarrow> (Inl ex, [OriginGet url])
                   | Inr v \<Rightarrow> (Inr (Obj v), [OriginGet url])))
      else (Inl (http_exception e 405 (PStr (lit ''Method not allowed''))), []))"

section \<open>Cache entries\<close>

text \<open>The envelope written to the store, and \<open>x.decode("utf-8")\<close> on a fetched body.\<close>

definition cache_entry :: "pystr \<Rightarrow> pystr \<Rightarrow> pyval" where
  "cache_entry payload_str ts =
     PDict [(lit ''payload'', PStr payload_str),
            (lit ''is_raw'', PBool True),
            (lit ''timestamp'', PFloat ts)]"

definition decode_body :: "body \<Rightarrow> pyexn + pystr" where
  "decode_body b =
     (case b of
        Bytes bs \<Rightarrow> (case utf8_decode bs of None \<Rightarrow> Inl UnicodeDecodeError | Some s \<Rightarrow> Inr s)
      | Obj v \<Rightarrow> Inl AttributeError)"

section \<open>Background refresh (\<open>update_cache_from_origin\<close>, main.py)\<close>

text \<open>Every exception is caught and logged; the function returns nothing.\<close>

definition update_cache_from_origin ::
  "env \<Rightarrow> store \<Rightarrow> pystr \<Rightarrow> pystr \<Rightarrow> pystr \<Rightarrow> store \<times> event list" where
  "update_cache_from_origin e st key method path =
     (if method = lit ''GET'' then
        (let url = registry_url e @ path
         in case origin_get e url of
              RequestError exc \<Rightarrow> (st, [OriginGet url])
            | OtherError exc \<Rightarrow> (st, [OriginGet url])
            | Responded resp \<Rightarrow>
                if status_code resp = 200 then
                  (case decode_body (Bytes (content resp)) of
                     Inl ex \<Rightarrow> (st, [OriginGet url])
                   | Inr data_str \<Rightarrow>
                       (let v = json_dumps (cache_entry data_str (clock e))
                        in (snd (redis_set e st key v), [OriginGet url, RedisSet key v])))
                else (st, [OriginGet url]))
      else (st, []))"

section \<open>Cache-aside proxy engine (\<open>proxy_request\<close>, main.py)\<close>

text \<open>
  What a handler hands back: a \<open>Response\<close> with body and media type, or a plain object
  (a parsed value, or the dictionary built by \<open>paginate_data\<close>) that the framework
  serialises.
\<close>

datatype reply =
    Response bytes pystr
  | Returned pyval
  | ReturnedPage "pyval page_dict"

text \<open>
  \<open>Response(content=c, media_type=m)\<close>: the constructor renders the content, which is
  \<open>b""\<close> for \<open>None\<close>, the bytes themselves, or \<open>c.encode("utf-8")\<close>.
\<close>

definition new_response :: "body \<Rightarrow> pystr \<Rightarrow> pyexn + reply" where
  "new_response c media_type =
     (case c of
        Bytes bs \<Rightarrow> Inr (Response bs media_type)
      | Obj PNone \<Rightarrow> Inr (Response [] media_type)
      | Obj (PStr s) \<Rightarrow>
          (case utf8_encode s of
             None \<Rightarrow> Inl UnicodeEncodeError
           | Some bs \<Rightarrow> Inr (Response bs media_type))
      | Obj _ \<Rightarrow> Inl AttributeError)"

text \<open>The scheduled call \<open>update_cache_from_origin(key, method, path, json_data, page, limit)\<close>.\<close>

datatype task =
  UpdateCacheFromOrigin pystr pystr pystr "pyval option" "int option" "int option"

text \<open>
  The inner \<open>try\<close> block of the lookup: parse the stored text and build the reply.
  \<open>Inl\<close> is an exception, which the caller logs before it goes on to the origin.
\<close>

definition serve_cached :: "pystr \<Rightarrow> int option \<Rightarrow> int option \<Rightarrow> pyexn + reply" where
  "serve_cached cached page limit =
     (case json_loads cached of
        None \<Rightarrow> Inl JSONDecodeError
      | Some cached_obj \<Rightarrow>
          (let unwrapped =
                 (case cached_obj of
                    PDict d \<Rightarrow>
                      if dict_has d (lit ''payload'') then
                        (let data = dict_get d (lit ''payload'') PNone;
                             is_raw = dict_get d (lit ''is_raw'') (PBool False)
                         in Some (if truthy is_raw
                                  then new_response (Obj data) (lit ''application/json'')
                                  else Inr (Returned data)))
                      else None
                  | _ \<Rightarrow> None)
           in case unwrapped of
                Some r \<Rightarrow> r
              | None \<Rightarrow>
                  (case (cached_obj, page, limit) of
                     (PList xs, Some p, Some l) \<Rightarrow>
                       (case paginate_data xs p l of
                          Inl ex \<Rightarrow> Inl ex
                        | Inr pd \<Rightarrow> Inr (ReturnedPage pd))
                   | _ \<Rightarrow> Inr (Returned cached_obj))))"

record outcome =
  o_result :: "pyexn + reply"
  o_tasks :: "task list"
  o_store :: store
  o_trace :: "event list"

definition cache_key :: "pystr \<Rightarrow> pystr \<Rightarrow> pystr" where
  "cache_key method path = method @ lit '':'' @ path"

text \<open>
  The lookup (the first \<open>if method == "GET"\<close> block): the reply to return at once, if
  any, the background tasks added and the calls made. A failing read, an absent or
  empty value and an exception while serving the value all leave the reply open.
\<close>

definition cache_lookup ::
  "env \<Rightarrow> store \<Rightarrow> pystr \<Rightarrow> pystr \<Rightarrow> task \<Rightarrow> int option \<Rightarrow> int option
     \<Rightarrow> reply option \<times> task list \<times> event list" where
  "cache_lookup e st method key refresh page limit =
     (if method = lit ''GET'' then
        (case redis_get e st key of
           Inl ex \<Rightarrow> (None, [], [RedisGet key])
         | Inr None \<Rightarrow> (None, [], [RedisGet key])
         | Inr (Some cached) \<Rightarrow>
             if cached \<noteq> [] then
               (case serve_cached cached page limit of
                  Inl ex \<Rightarrow> (None, [refresh], [RedisGet key])
                | Inr r \<Rightarrow> (Some r, [refresh], [RedisGet key]))
             else (None, [], [RedisGet key]))
      else (None, [], []))"

text \<open>
  The origin path (from \<open>result_raw = await forward_request(...)\<close> on): fetch, store the
  envelope when the body decodes, answer with the body. An exception of the store step
  is caught and logged.
\<close>

definition fetch_and_store ::
  "env \<Rightarrow> store \<Rightarrow> pystr \<Rightarrow> pystr \<Rightarrow> pystr \<Rightarrow> task list \<Rightarrow> event list \<Rightarrow> outcome" where
  "fetch_and_store e st method path key ts tr =
     (case forward_request e method path True of
        (Inl ex, tr2) \<Rightarrow>
          \<lparr> o_result = Inl ex, o_tasks = ts, o_store = st, o_trace = tr @ tr2 \<rparr>
      | (Inr result_raw, tr2) \<Rightarrow>
          (let (st', tr3) =
                 (if method = lit ''GET'' then
                    (case decode_body result_raw of
                       Inl ex \<Rightarrow> (st, [])
                     | Inr payload_str \<Rightarrow>
                         (let v = json_dumps (cache_entry payload_str (clock e))
                          in (snd (redis_set e st key v), [RedisSet key v])))
                  else (st, []))
           in \<lparr> o_result = new_response result_raw (lit ''application/json''),
                o_tasks = ts, o_store = st', o_trace = tr @ tr2 @ tr3 \<rparr>))"

definition proxy_request ::
  "env \<Rightarrow> store \<Rightarrow> pystr \<Rightarrow> pystr \<Rightarrow> pyval option \<Rightarrow> int option \<Rightarrow> int option \<Rightarrow> outcome" where
  "proxy_request e st method path json_data page limit =
     (let key = cache_key method path;
          refresh = UpdateCacheFromOrigin key method path json_data page limit
      in case cache_lookup e st method key refresh page limit of
           (Some r, ts, tr) \<Rightarrow>
             \<lparr> o_result = Inr r, o_tasks = ts, o_store = st, o_trace = tr \<rparr>
         | (None, ts, tr) \<Rightarrow> fetch_and_store e st method path key ts tr)"

text \<open>Running a scheduled task after the response has been sent.\<close>

fun run_task :: "env \<Rightarrow> store \<Rightarrow> task \<Rightarrow> store \<times> event list" where
  "run_task e st (UpdateCacheFromOrigin key method path json_data page limit) =
     update_cache_from_origin e st key method path"

section \<open>Request validation (models.py) and the \<open>/api/requests\<close> endpoint\<close>

text \<open>
  \<open>PageNumber = Annotated[int, Field(ge=1)]\<close>, \<open>PageLimit = Annotated[int, Field(ge=1, le=25)]\<close>.
\<close>

definition valid_PageNumber :: "int \<Rightarrow> bool" where
  "valid_PageNumber v \<longleftrightarrow> 1 \<le> v"

definition valid_PageLimit :: "int \<Rightarrow> bool" where
  "valid_PageLimit v \<longleftrightarrow> 1 \<le> v \<and> v \<le> 25"

text \<open>
  The character class of \<open>SAFE_STRING_REGEX\<close>: ASCII letters and digits, whitespace
  (\<open>\s\<close>), the listed punctuation and the listed Vietnamese letters.
\<close>

definition regex_space :: "nat \<Rightarrow> bool" where
  "regex_space c \<longleftrightarrow>
     (9 \<le> c \<and> c \<le> 13) \<or> (28 \<le> c \<and> c \<le> 32) \<or> c = 133 \<or> c = 160 \<or> c = 5760
     \<or> (8192 \<le> c \<and> c \<le> 8202) \<or> c = 8232 \<or> c = 8233 \<or> c = 8239 \<or> c = 8287 \<or> c = 12288"

definition safe_punctuation :: "nat list" where
  "safe_punctuation =
     [46, 44, 45, 63, 33, 58, 59, 39, 34, 40, 41, 91, 93, 123, 125, 64, 35, 36, 37, 38, 42,
      43, 61, 95, 47, 92]"

definition vietnamese_letters :: "nat list" where
  "vietnamese_letters =
     [192, 193, 194, 195, 200, 201, 202, 204, 205, 210, 211, 212, 213, 217, 218, 221,
      224, 225, 226, 227, 232, 233, 234, 236, 237, 242, 243, 244, 245, 249, 250, 253,
      258, 259, 272, 273, 296, 297, 360, 361, 416, 417, 431, 432]"

definition safe_char :: "nat \<Rightarrow> bool" where
  "safe_char c \<longleftrightarrow>
     (97 \<le> c \<and> c \<le> 122) \<or> (65 \<le> c \<and> c \<le> 90) \<or> (48 \<le> c \<and> c \<le> 57) \<or> regex_space c
     \<or> c \<in> set safe_punctuation \<or> c \<in> set vietnamese_letters \<or> (7840 \<le> c \<and> c \<le> 7929)"

definition validate_safe_chars :: "pystr \<Rightarrow> pyexn + pystr" where
  "validate_safe_chars v =
     (if v = [] then Inr v
      else if \<not> list_all safe_char v then Inl ValueError
      else Inr v)"

text \<open>
  The handler body: the upstream path with its query string, then the proxy engine.
  An optional filter is appended when it is given and not empty.
\<close>

definition requests_path ::
  "int \<Rightarrow> int \<Rightarrow> pystr option \<Rightarrow> pystr option \<Rightarrow> pystr option \<Rightarrow> pystr \<Rightarrow> pystr \<Rightarrow> pystr" where
  "requests_path page limit status search region sort_by order' =
     (let opt = (\<lambda>name v. case v of None \<Rightarrow> [] | Some x \<Rightarrow> if x \<noteq> [] then name @ x else [])
      in lit ''/api/requests?page='' @ str_int page @ lit ''&limit='' @ str_int limit
         @ lit ''&sort_by='' @ sort_by @ lit ''&order='' @ order'
         @ opt (lit ''&status='') status
         @ opt (lit ''&search='') search
         @ opt (lit ''&region='') region)"

definition get_requests ::
  "env \<Rightarrow> store \<Rightarrow> int \<Rightarrow> int \<Rightarrow> pystr option \<Rightarrow> pystr option \<Rightarrow> pystr option
     \<Rightarrow> pystr \<Rightarrow> pystr \<Rightarrow> outcome" where
  "get_requests e st page limit status search region sort_by order' =
     proxy_request e st (lit ''GET'')
       (requests_path page limit status search region sort_by order') None (Some page) (Some limit)"

text \<open>
  The query parameters as the client sent them (absent or present), and what the
  framework does with the declared types and defaults: a missing parameter takes its
  default, which is not validated; a present one is validated against its type, and a
  failure is answered with a validation error before the handler runs.
\<close>

record query =
  q_page :: "int option"
  q_limit :: "int option"
  q_status :: "pystr option"
  q_search :: "pystr option"
  q_region :: "pystr option"
  q_sort_by :: "pystr option"
  q_order :: "pystr option"

definition int_param :: "(int \<Rightarrow> bool) \<Rightarrow> int \<Rightarrow> int option \<Rightarrow> pyexn + int" where
  "int_param valid dflt v =
     (case v of
        None \<Rightarrow> Inr dflt
      | Some x \<Rightarrow> if valid x then Inr x else Inl RequestValidationError)"

definition str_param :: "pystr option \<Rightarrow> bool" where
  "str_param v \<longleftrightarrow> (case v of None \<Rightarrow> True | Some x \<Rightarrow> validate_safe_chars x = Inr x)"

definition default_to :: "pystr \<Rightarrow> pystr option \<Rightarrow> pystr" where
  "default_to dflt v = (case v of None \<Rightarrow> dflt | Some x \<Rightarrow> x)"

definition get_requests_endpoint :: "env \<Rightarrow> store \<Rightarrow> query \<Rightarrow> pyexn + outcome" where
  "get_requests_endpoint e st q =
     (case (int_param valid_PageNumber 1 (q_page q), int_param valid_PageLimit 50 (q_limit q)) of
        (Inr page, Inr limit) \<Rightarrow>
          if str_param (q_status q) \<and> str_param (q_search q) \<and> str_param (q_region q)
             \<and> str_param (q_sort_by q) \<and> str_param (q_order q)
          then Inr (get_requests e st page limit (q_status q) (q_search q) (q_region q)
                      (default_to (lit ''default'') (q_sort_by q))
                      (default_to (lit ''desc'') (q_order q)))
          else Inl RequestValidationError
      | _ \<Rightarrow> Inl RequestValidationError)"

section \<open>Sample environments\<close>

text \<open>
  Concrete inputs at which the theorems below are instantiated: an origin that gives the
  same answer to every URL, a store that works, a fixed clock reading. A sample response
  is given by its status, its body, what \<open>resp.json()\<close> gives for that body, and its
  content type; where the response text is used the body is ASCII, so \<open>resp.text\<close> has
  the code points of the bytes.
\<close>

definition http_response :: "int \<Rightarrow> bytes \<Rightarrow> pyexn + pyval \<Rightarrow> pystr \<Rightarrow> response" where
  "http_response code body parsed ctype =
     \<lparr> status_code = code, content = body, resp_text = lit body, resp_json = parsed,
       content_type = ctype \<rparr>"

text \<open>The client and server error members of \<open>http.HTTPStatus\<close> (Python 3.11).\<close>

definition http_status_phrases :: "(int \<times> pystr) list" where
  "http_status_phrases =
     [(400, lit ''Bad Request''),
      (401, lit ''Unauthorized''),
      (402, lit ''Payment Required''),
      (403, lit ''Forbidden''),
      (404, lit ''Not Found''),
      (405, lit ''Method Not Allowed''),
      (406, lit ''Not Acceptable''),
      (407, lit ''Proxy Authentication Required''),
      (408, lit ''Request Timeout''),
      (409, lit ''Conflict''),
      (410, lit ''Gone''),
      (411, lit ''Length Required''),
      (412, lit ''Precondition Failed''),
      (413, lit ''Request Entity Too Large''),
      (414, lit ''Request-URI Too Long''),
      (415, lit ''Unsupported Media Type''),
      (416, lit ''Requested Range Not Satisfiable''),
      (417, lit ''Expectation Failed''),
      (418, lit (''I'' @ [CHR 0x27] @ ''m a Teapot'')),
      (421, lit ''Misdirected Request''),
      (422, lit ''Unprocessable Entity''),
      (423, lit ''Locked''),
      (424, lit ''Failed Dependency''),
      (425, lit ''Too Early''),
      (426, lit ''Upgrade Required''),
      (428, lit ''Precondition Required''),
      (429, lit ''Too Many Requests''),
      (431, lit ''Request Header Fields Too Large''),
      (451, lit ''Unavailable For Legal Reasons''),
      (500, lit ''Internal Server Error''),
      (501, lit ''Not Implemented''),
      (502, lit ''Bad Gateway''),
      (503, lit ''Service Unavailable''),
      (504, lit ''Gateway Timeout''),
      (505, lit ''HTTP Version Not Supported''),
      (506, lit ''Variant Also Negotiates''),
      (507, lit ''Insufficient Storage''),
      (508, lit ''Loop Detected''),
      (510, lit ''Not Extended''),
      (511, lit ''Network Authentication Required'')]"

definition sample_env :: "origin_outcome \<Rightarrow> env" where
  "sample_env answer =
     \<lparr> registry_url = lit ''http://127.0.0.1:8001'',
       origin_get = (\<lambda>url. answer),
       status_phrase = map_of http_status_phrases,
       redis_get_fails = False,
       redis_set_fails = False,
       clock = lit ''1730678400.5'' \<rparr>"

definition non_utf8_response :: response where
  "non_utf8_response =
     http_response 200 [CHR 0xFF] (Inl UnicodeDecodeError) (lit ''application/octet-stream'')"

definition redirect_response :: response where
  "redirect_response = http_response 301 ''moved'' (Inl JSONDecodeError) (lit ''text/html'')"

definition plain_text_response :: response where
  "plain_text_response = http_response 200 ''hello'' (Inl JSONDecodeError) (lit ''text/plain'')"







definition first_visit :: outcome where
  "first_visit =
     proxy_request (sample_env (Responded plain_text_response)) Map.empty (lit ''GET'')
       (lit ''/api/news'') None None None"

definition second_visit :: outcome where
  "second_visit =
     proxy_request (sample_env (Responded plain_text_response)) (o_store first_visit) (lit ''GET'')
       (lit ''/api/news'') None None None"

text \<open>Unicode scalar values: code points that are not surrogates.\<close>

definition scalar :: "nat \<Rightarrow> bool" where
  "scalar c \<longleftrightarrow> c < 1114112 \<and> (c < 55296 \<or> 57344 \<le> c)"

text \<open>
  The shape of a clock reading as \<open>json.dumps\<close> prints it: digits, a point, digits
  (no leading zero before a further digit).
\<close>

definition float_repr :: "pystr \<Rightarrow> bool" where
  "float_repr ts \<longleftrightarrow>
     (let ip = takeWhile is_digit ts; rest = dropWhile is_digit ts
      in ip \<noteq> [] \<and> (if hd ip = 48 then ip = [48] else True)
         \<and> (case rest of [] \<Rightarrow> False | c # fp \<Rightarrow> c = 46 \<and> fp \<noteq> [] \<and> list_all is_digit fp))"

definition list_store :: store where
  "list_store = [lit ''GET:/api/news'' \<mapsto> lit ''[1, 2]'']"

definition garbage_store :: store where
  "garbage_store = [lit ''GET:/api/news'' \<mapsto> lit ''<<not json>>'']"

section \<open>Auxiliary notions for the cache key\<close>

text \<open>
  A value is free of the separator when it has no \<open>&\<close> (code point 38); an optional filter
  counts as the handler treats it, an empty value like an absent one. \<open>split_amp\<close> cuts a
  text at every \<open>&\<close>, and \<open>int_of_str\<close> reads a decimal numeral back.
\<close>

definition no_amp :: "pystr \<Rightarrow> bool" where
  "no_amp s \<longleftrightarrow> 38 \<notin> set s"

definition opt_no_amp :: "pystr option \<Rightarrow> bool" where
  "opt_no_amp v \<longleftrightarrow> (case v of None \<Rightarrow> True | Some x \<Rightarrow> no_amp x)"

definition effective :: "pystr option \<Rightarrow> pystr option" where
  "effective v = (case v of None \<Rightarrow> None | Some x \<Rightarrow> if x = [] then None else Some x)"

fun split_amp :: "pystr \<Rightarrow> pystr list" where
  "split_amp [] = [] # []"
| "split_amp (c # cs) =
     (if c = 38 then [] # split_amp cs
      else (case split_amp cs of [] \<Rightarrow> [c] # [] | x # xs \<Rightarrow> (c # x) # xs))"

definition int_of_str :: "pystr \<Rightarrow> int" where
  "int_of_str s =
     (case s of
        [] \<Rightarrow> 0
      | c # r \<Rightarrow> if c = 45 then - int (digits_val r) else int (digits_val s))"

definition filter_segment :: "pystr \<Rightarrow> pystr option \<Rightarrow> pystr list" where
  "filter_segment name v = (case effective v of None \<Rightarrow> [] | Some x \<Rightarrow> [name @ x])"

section \<open>Pagination: proofs\<close>

lemma py_slice_nonneg:
  assumes "0 \<le> start" and "start \<le> end'"
  shows "py_slice items start end' = take (nat (end' - start)) (drop (nat start) items)"
proof (cases "start \<le> int (length items)")
  case True
  show ?thesis
  proof (cases "end' \<le> int (length items)")
    case True
    with assms \<open>start \<le> int (length items)\<close> show ?thesis
      by (simp add: py_slice_def slice_bound_def Let_def)
  next
    case False
    have "take (nat (int (length items) - start)) (drop (nat start) items) = drop (nat start) items"
      using assms True by (intro take_all) (simp add: nat_diff_distrib)
    moreover have "take (nat (end' - start)) (drop (nat start) items) = drop (nat start) items"
      using assms False by (intro take_all) simp
    ultimately show ?thesis
      using assms True False by (simp add: py_slice_def slice_bound_def Let_def)
  qed
next
  case False
  then have "drop (nat start) items = []"
    by simp
  moreover have "slice_bound (int (length items)) start = int (length items)"
    using assms False by (simp add: slice_bound_def)
  ultimately show ?thesis
    by (simp add: py_slice_def Let_def)
qed

lemma ceil_div_pos:
  fixes t l :: int
  assumes "0 < l"
  shows "(t + l - 1) div l = \<lceil>real_of_int t / real_of_int l\<rceil>"
proof -
  have "\<lceil>real_of_int t / real_of_int l\<rceil> = - ((- t) div l)"
    by (rule ceiling_divide_eq_div)
  moreover have "- ((- t) div l) = (t + l - 1) div l"
  proof -
    define q where "q = (t - 1) div l"
    define r where "r = (t - 1) mod l"
    have t: "t - 1 = l * q + r" by (simp add: q_def r_def)
    have r: "0 \<le> r" "r < l" using assms by (simp_all add: r_def)
    have "- t = l * (- q - 1) + (l - r - 1)" using t by (simp add: algebra_simps)
    then have "(- t) div l = - q - 1"
      using r by (intro int_div_pos_eq [where r = "l - r - 1"]) simp_all
    moreover have "t + l - 1 = l * (q + 1) + r" using t by (simp add: algebra_simps)
    then have "(t + l - 1) div l = q + 1"
      using r by (intro int_div_pos_eq [where r = r]) simp_all
    ultimately show ?thesis by simp
  qed
  ultimately show ?thesis by simp
qed

text \<open>
  C4. For a 1-based page and a positive limit, \<open>paginate_data\<close> returns the slice
  \<open>[start:end)\<close> with \<open>start = (page-1)*limit\<close> and \<open>end = start+limit\<close>, the length of the
  list as total, and \<open>ceil(total/limit)\<close> pages. In particular every 7-element list at
  page 2, limit 3 gives the elements at indices 3, 4, 5 with total 7 and 3 pages, and the
  empty list at page 1, limit 25 gives an empty slice and 0 pages.
\<close>

theorem paginate_data_spec:
  "(1 \<le> page \<and> 1 \<le> limit \<longrightarrow>
      paginate_data (items :: 'a list) page limit =
        Inr \<lparr> pg_data = take (nat limit) (drop (nat ((page - 1) * limit)) items),
              pg_total = int (length items),
              pg_page = page,
              pg_limit = limit,
              pg_total_pages = \<lceil>real (length items) / real_of_int limit\<rceil> \<rparr>)
   \<and> (length items = 7 \<longrightarrow>
      paginate_data items 2 3 =
        Inr \<lparr> pg_data = [items ! 3, items ! 4, items ! 5],
              pg_total = 7, pg_page = 2, pg_limit = 3, pg_total_pages = 3 \<rparr>)
   \<and> paginate_data ([] :: 'a list) 1 25 =
        Inr \<lparr> pg_data = [], pg_total = 0, pg_page = 1, pg_limit = 25, pg_total_pages = 0 \<rparr>"
proof (intro conjI impI)
  assume h: "1 \<le> page \<and> 1 \<le> limit"
  then have "0 \<le> (page - 1) * limit" by simp
  moreover from h have "(page - 1) * limit \<le> (page - 1) * limit + limit" by simp
  ultimately have "py_slice items ((page - 1) * limit) ((page - 1) * limit + limit)
      = take (nat limit) (drop (nat ((page - 1) * limit)) items)"
    using py_slice_nonneg [of "(page - 1) * limit" "(page - 1) * limit + limit" items] by simp
  moreover have "(int (length items) + limit - 1) div limit
      = \<lceil>real (length items) / real_of_int limit\<rceil>"
    using h ceil_div_pos [of limit "int (length items)"] by simp
  ultimately show "paginate_data items page limit =
        Inr \<lparr> pg_data = take (nat limit) (drop (nat ((page - 1) * limit)) items),
              pg_total = int (length items),
              pg_page = page,
              pg_limit = limit,
              pg_total_pages = \<lceil>real (length items) / real_of_int limit\<rceil> \<rparr>"
    using h by (simp add: paginate_data_def Let_def)
next
  assume len: "length items = 7"
  then obtain a b c d e f g where "items = [a, b, c, d, e, f, g]"
    by (auto simp: length_Suc_conv eval_nat_numeral)
  then show "paginate_data items 2 3 =
        Inr \<lparr> pg_data = [items ! 3, items ! 4, items ! 5],
              pg_total = 7, pg_page = 2, pg_limit = 3, pg_total_pages = 3 \<rparr>"
    by (simp add: paginate_data_def py_slice_def slice_bound_def Let_def eval_nat_numeral)
next
  show "paginate_data ([] :: 'a list) 1 25 =
        Inr \<lparr> pg_data = [], pg_total = 0, pg_page = 1, pg_limit = 25, pg_total_pages = 0 \<rparr>"
    by (simp add: paginate_data_def py_slice_def slice_bound_def Let_def)
qed

theorem paginate_data_spec_witness:
  "(1 \<le> (2::int) \<and> 1 \<le> (3::int)) \<and> length ''abcdefg'' = 7
   \<and> paginate_data ''abcdefg'' 2 3 =
        Inr \<lparr> pg_data = ''def'', pg_total = 7, pg_page = 2, pg_limit = 3, pg_total_pages = 3 \<rparr>"
proof -
  have "paginate_data ''abcdefg'' 2 3 =
        Inr \<lparr> pg_data = [''abcdefg'' ! 3, ''abcdefg'' ! 4, ''abcdefg'' ! 5],
              pg_total = 7, pg_page = 2, pg_limit = 3, pg_total_pages = 3 \<rparr>"
    using paginate_data_spec [of 2 3 "''abcdefg''"] by simp
  then show ?thesis by (simp add: eval_nat_numeral)
qed

section \<open>Raising \<open>HTTPException\<close>\<close>

lemma http_exception_str [simp]:
  "http_exception e code (PStr s) = HTTPException code (PStr s)"
  by (simp add: http_exception_def)

section \<open>Non-read methods\<close>

text \<open>
  C7. A request with any method other than \<open>GET\<close> fails with the 405 rejection
  (\<open>Method not allowed\<close>); it makes no call on the cache store and none on the origin
  (the trace is empty), schedules nothing, and leaves the store as it was.
\<close>

theorem non_get_rejected:
  assumes "method \<noteq> lit ''GET''"
  shows "proxy_request e st method path json_data page limit =
           \<lparr> o_result = Inl (HTTPException 405 (PStr (lit ''Method not allowed''))),
             o_tasks = [], o_store = st, o_trace = [] \<rparr>"
  using assms
  by (simp add: proxy_request_def cache_lookup_def fetch_and_store_def forward_request_def Let_def)

theorem non_get_rejected_witness:
  "lit ''POST'' \<noteq> lit ''GET'' \<and>
   proxy_request (sample_env (RequestError [])) Map.empty (lit ''POST'') (lit ''/api/requests'')
       None None None =
     \<lparr> o_result = Inl (HTTPException 405 (PStr (lit ''Method not allowed''))),
       o_tasks = [], o_store = Map.empty, o_trace = [] \<rparr>"
  using non_get_rejected [of "lit ''POST''" "sample_env (RequestError [])" Map.empty
      "lit ''/api/requests''" None None None]
  by (simp add: lit_def)

section \<open>The miss path\<close>

lemma forward_request_ok:
  assumes "origin_get e (registry_url e @ path) = Responded resp" and "status_code resp < 400"
  shows "forward_request e (lit ''GET'') path True
           = (Inr (Bytes (content resp)), [OriginGet (registry_url e @ path)])"
  using assms by (simp add: forward_request_def Let_def)

lemma proxy_request_miss:
  assumes "fst (cache_lookup e st (lit ''GET'') (cache_key (lit ''GET'') path)
                  (UpdateCacheFromOrigin (cache_key (lit ''GET'') path) (lit ''GET'') path jd page limit)
                  page limit) = None"
  shows "proxy_request e st (lit ''GET'') path jd page limit =
           (case cache_lookup e st (lit ''GET'') (cache_key (lit ''GET'') path)
                  (UpdateCacheFromOrigin (cache_key (lit ''GET'') path) (lit ''GET'') path jd page limit)
                  page limit of
              (r, ts, tr) \<Rightarrow> fetch_and_store e st (lit ''GET'') path (cache_key (lit ''GET'') path) ts tr)"
  using assms by (auto simp: proxy_request_def Let_def split: prod.splits option.splits)

lemma cache_lookup_trace:
  "snd (snd (cache_lookup e st (lit ''GET'') key refresh page limit)) = [RedisGet key]"
  by (simp add: cache_lookup_def split: sum.splits option.splits)

lemma cache_lookup_content_miss:
  assumes "\<not> redis_get_fails e"
      and "fst (cache_lookup e st (lit ''GET'') key refresh page limit) = None"
  shows "fst (cache_lookup e' st (lit ''GET'') key refresh page limit) = None"
  using assms
  by (auto simp: cache_lookup_def redis_get_def split: option.splits sum.splits if_splits)

text \<open>
  C10. On the miss path (the lookup returned no reply), when the origin answers with a
  status below 400 and a body that is not valid UTF-8: the body is returned unchanged
  with no exception, the store is left as it was and no write is attempted (the trace is
  the read and the origin call), and, when the read itself had worked, every later
  lookup of the same key finds nothing to serve again, whatever its environment.
\<close>

theorem non_utf8_body_not_cached:
  assumes origin: "origin_get e (registry_url e @ path) = Responded resp"
      and status: "status_code resp < 400"
      and bad: "utf8_decode (content resp) = None"
      and miss: "fst (cache_lookup e st (lit ''GET'') (cache_key (lit ''GET'') path)
                  (UpdateCacheFromOrigin (cache_key (lit ''GET'') path) (lit ''GET'') path jd page limit)
                  page limit) = None"
  shows "o_result (proxy_request e st (lit ''GET'') path jd page limit)
           = Inr (Response (content resp) (lit ''application/json''))
       \<and> o_store (proxy_request e st (lit ''GET'') path jd page limit) = st
       \<and> o_trace (proxy_request e st (lit ''GET'') path jd page limit)
           = [RedisGet (cache_key (lit ''GET'') path), OriginGet (registry_url e @ path)]
       \<and> (\<not> redis_get_fails e \<longrightarrow>
            (\<forall>e'. fst (cache_lookup e' (o_store (proxy_request e st (lit ''GET'') path jd page limit))
                  (lit ''GET'') (cache_key (lit ''GET'') path)
                  (UpdateCacheFromOrigin (cache_key (lit ''GET'') path) (lit ''GET'') path jd page limit)
                  page limit) = None))"
proof -
  let ?key = "cache_key (lit ''GET'') path"
  let ?refresh = "UpdateCacheFromOrigin ?key (lit ''GET'') path jd page limit"
  obtain r ts tr where l: "cache_lookup e st (lit ''GET'') ?key ?refresh page limit = (r, ts, tr)"
    by (cases "cache_lookup e st (lit ''GET'') ?key ?refresh page limit") auto
  from cache_lookup_trace [of e st ?key ?refresh page limit] l have tr: "tr = [RedisGet ?key]"
    by simp
  have "proxy_request e st (lit ''GET'') path jd page limit
          = fetch_and_store e st (lit ''GET'') path ?key ts tr"
    using proxy_request_miss [OF miss] l by simp
  then have main: "proxy_request e st (lit ''GET'') path jd page limit
      = \<lparr> o_result = Inr (Response (content resp) (lit ''application/json'')),
          o_tasks = ts, o_store = st,
          o_trace = [RedisGet ?key, OriginGet (registry_url e @ path)] \<rparr>"
    using forward_request_ok [OF origin status] bad tr
    by (simp add: fetch_and_store_def decode_body_def new_response_def)
  have "\<not> redis_get_fails e \<longrightarrow>
          (\<forall>e'. fst (cache_lookup e' st (lit ''GET'') ?key ?refresh page limit) = None)"
    using cache_lookup_content_miss [OF _ miss] by blast
  with main show ?thesis by simp
qed

theorem non_utf8_body_not_cached_witness:
  "origin_get (sample_env (Responded non_utf8_response))
       (registry_url (sample_env (Responded non_utf8_response)) @ lit ''/api/news'')
     = Responded non_utf8_response
   \<and> status_code non_utf8_response < 400
   \<and> utf8_decode (content non_utf8_response) = None
   \<and> \<not> redis_get_fails (sample_env (Responded non_utf8_response))
   \<and> o_result (proxy_request (sample_env (Responded non_utf8_response))
        Map.empty (lit ''GET'') (lit ''/api/news'') None None None)
       = Inr (Response (content non_utf8_response) (lit ''application/json''))
   \<and> o_store (proxy_request (sample_env (Responded non_utf8_response))
        Map.empty (lit ''GET'') (lit ''/api/news'') None None None) = Map.empty
   \<and> fst (cache_lookup (sample_env (RequestError []))
        (o_store (proxy_request (sample_env (Responded non_utf8_response))
           Map.empty (lit ''GET'') (lit ''/api/news'') None None None))
        (lit ''GET'') (cache_key (lit ''GET'') (lit ''/api/news''))
        (UpdateCacheFromOrigin (cache_key (lit ''GET'') (lit ''/api/news'')) (lit ''GET'')
           (lit ''/api/news'') None None None) None None) = None"
proof -
  let ?e = "sample_env (Responded non_utf8_response)"
  have 1: "origin_get ?e (registry_url ?e @ lit ''/api/news'') = Responded non_utf8_response"
    by (simp add: sample_env_def)
  have 2: "status_code non_utf8_response < 400"
    by (simp add: non_utf8_response_def http_response_def)
  have 3: "utf8_decode (content non_utf8_response) = None"
    by (simp add: non_utf8_response_def http_response_def utf8_decode_def)
  have 4: "fst (cache_lookup ?e Map.empty (lit ''GET'') (cache_key (lit ''GET'') (lit ''/api/news''))
        (UpdateCacheFromOrigin (cache_key (lit ''GET'') (lit ''/api/news'')) (lit ''GET'')
           (lit ''/api/news'') None None None) None None) = None"
    by (simp add: cache_lookup_def redis_get_def sample_env_def)
  have 5: "\<not> redis_get_fails ?e" by (simp add: sample_env_def)
  note th = non_utf8_body_not_cached [OF 1 2 3 4]
  from th 5 have "fst (cache_lookup (sample_env (RequestError []))
        (o_store (proxy_request ?e Map.empty (lit ''GET'') (lit ''/api/news'') None None None))
        (lit ''GET'') (cache_key (lit ''GET'') (lit ''/api/news''))
        (UpdateCacheFromOrigin (cache_key (lit ''GET'') (lit ''/api/news'')) (lit ''GET'')
           (lit ''/api/news'') None None None) None None) = None"
    by blast
  with th 1 2 3 5 show ?thesis by blast
qed

section \<open>Origin client outcomes\<close>

lemma forward_request_other_error:
  assumes "origin_get e (registry_url e @ path) = OtherError exc"
  shows "forward_request e (lit ''GET'') path raw
           = (Inl (OtherException exc), [OriginGet (registry_url e @ path)])"
  using assms by (simp add: forward_request_def Let_def)

lemma forward_request_unknown_status:
  assumes "origin_get e (registry_url e @ path) = Responded resp" and "400 \<le> status_code resp"
    and "resp_json resp = Inr (PDict d)" and "map_of d (lit ''detail'') = Some PNone"
    and "status_phrase e (status_code resp) = None"
  shows "forward_request e (lit ''GET'') path raw
           = (Inl ValueError, [OriginGet (registry_url e @ path)])"
  using assms by (simp add: forward_request_def Let_def dict_get_def http_exception_def)




section \<open>Media type of the replies\<close>

lemma new_response_media:
  assumes "new_response c mt = Inr (Response b mt')"
  shows "mt' = mt"
  using assms by (auto simp: new_response_def split: body.splits pyval.splits option.splits)

lemma new_response_is_Response:
  assumes "new_response c mt = Inr r"
  shows "\<exists>b. r = Response b mt"
  using assms by (auto simp: new_response_def split: body.splits pyval.splits option.splits)

lemma serve_cached_media:
  assumes "serve_cached cached page limit = Inr (Response b mt)"
  shows "mt = lit ''application/json''"
proof (cases "json_loads cached")
  case None
  with assms show ?thesis by (simp add: serve_cached_def)
next
  case (Some obj)
  show ?thesis
  proof (cases "\<exists>d. obj = PDict d \<and> dict_has d (lit ''payload'')")
    case True
    then obtain d where d: "obj = PDict d" "dict_has d (lit ''payload'')" by blast
    with assms Some show ?thesis
      by (auto simp: serve_cached_def Let_def split: if_splits dest: new_response_media)
  next
    case False
    with assms Some show ?thesis
      by (auto simp: serve_cached_def Let_def split: pyval.splits option.splits sum.splits if_splits)
  qed
qed

text \<open>
  C9 as stated. The claim that a hit is served with the content type the origin sent fails: the entry
  stored from a \<open>text/plain\<close> answer is served from the cache (the only call is the store
  read) as \<open>application/json\<close>.
\<close>

theorem hit_content_type_counterexample:
  "content_type plain_text_response = lit ''text/plain''
   \<and> o_result first_visit = Inr (Response ''hello'' (lit ''application/json''))
   \<and> o_result second_visit = Inr (Response ''hello'' (lit ''application/json''))
   \<and> o_trace second_visit = [RedisGet (lit ''GET:/api/news'')]
   \<and> lit ''application/json'' \<noteq> content_type plain_text_response"
  by code_simp

text \<open>
  C9 (amended). Every \<open>Response\<close> that the proxy engine returns, from the cache or from the
  origin, carries the fixed media type \<open>application/json\<close>; the content type that the origin
  sent is not part of the stored entry and has no influence on the reply.
\<close>

theorem response_media_type_fixed:
  assumes "o_result (proxy_request e st method path json_data page limit) = Inr (Response b mt)"
  shows "mt = lit ''application/json''"
proof -
  let ?key = "cache_key method path"
  let ?refresh = "UpdateCacheFromOrigin ?key method path json_data page limit"
  obtain r ts tr where l: "cache_lookup e st method ?key ?refresh page limit = (r, ts, tr)"
    by (cases "cache_lookup e st method ?key ?refresh page limit") auto
  show ?thesis
  proof (cases r)
    case None
    with l have "proxy_request e st method path json_data page limit
        = fetch_and_store e st method path ?key ts tr"
      by (simp add: proxy_request_def Let_def)
    with assms show ?thesis
      by (auto simp: fetch_and_store_def Let_def split: prod.splits sum.splits
               dest: new_response_media)
  next
    case (Some r')
    with l assms have r': "r' = Response b mt"
      by (simp add: proxy_request_def Let_def)
    from l Some have "\<exists>cached. serve_cached cached page limit = Inr r'"
      by (auto simp: cache_lookup_def split: if_splits sum.splits option.splits)
    with r' show ?thesis by (auto dest: serve_cached_media)
  qed
qed

theorem response_media_type_fixed_witness:
  "o_result second_visit = Inr (Response ''hello'' (lit ''application/json''))
   \<and> lit ''application/json'' = lit ''application/json''"
proof -
  have r: "o_result second_visit = Inr (Response ''hello'' (lit ''application/json''))"
    by code_simp
  then have "o_result (proxy_request (sample_env (Responded plain_text_response)) (o_store first_visit)
      (lit ''GET'') (lit ''/api/news'') None None None)
      = Inr (Response ''hello'' (lit ''application/json''))"
    by (simp add: second_visit_def)
  from response_media_type_fixed [OF this] r show ?thesis by simp
qed

section \<open>Which origin answers are written to the store\<close>

lemma refresh_writes_only_on_200:
  assumes "fst (update_cache_from_origin e st key method path) \<noteq> st"
  shows "\<exists>resp. origin_get e (registry_url e @ path) = Responded resp \<and> status_code resp = 200"
  using assms
  by (auto simp: update_cache_from_origin_def Let_def
           split: if_splits origin_outcome.splits sum.splits)

lemma miss_path_writes_below_400:
  assumes "o_store (proxy_request e st method path json_data page limit) \<noteq> st"
  shows "\<exists>resp. origin_get e (registry_url e @ path) = Responded resp \<and> status_code resp < 400"
proof -
  let ?key = "cache_key method path"
  let ?refresh = "UpdateCacheFromOrigin ?key method path json_data page limit"
  obtain r ts tr where l: "cache_lookup e st method ?key ?refresh page limit = (r, ts, tr)"
    by (cases "cache_lookup e st method ?key ?refresh page limit") auto
  show ?thesis
  proof (cases r)
    case None
    with l have "proxy_request e st method path json_data page limit
        = fetch_and_store e st method path ?key ts tr"
      by (simp add: proxy_request_def Let_def)
    with assms show ?thesis
      by (auto simp: fetch_and_store_def forward_request_def Let_def
               split: prod.splits sum.splits if_splits origin_outcome.splits)
  next
    case (Some r')
    with l assms show ?thesis
      by (simp add: proxy_request_def Let_def)
  qed
qed

text \<open>
  C5 at a failing input. The origin answers \<open>301\<close> with the body \<open>moved\<close>. On the miss path
  the body is returned and an entry built from it is written to the store, although
  the status is outside the 2xx range; the background refresh, given the same answer,
  writes nothing.
\<close>

theorem redirect_response_is_cached:
  "status_code redirect_response = 301
   \<and> o_result (proxy_request (sample_env (Responded redirect_response)) Map.empty (lit ''GET'')
         (lit ''/api/news'') None None None)
       = Inr (Response ''moved'' (lit ''application/json''))
   \<and> o_store (proxy_request (sample_env (Responded redirect_response)) Map.empty (lit ''GET'')
         (lit ''/api/news'') None None None) (lit ''GET:/api/news'')
       = Some (json_dumps (cache_entry (lit ''moved'') (lit ''1730678400.5'')))
   \<and> fst (update_cache_from_origin (sample_env (Responded redirect_response)) Map.empty
         (lit ''GET:/api/news'') (lit ''GET'') (lit ''/api/news'')) (lit ''GET:/api/news'')
       = None"
  by code_simp

section \<open>Pagination parameters of the endpoint\<close>

lemma supplied_limit_bounded:
  assumes "q_limit q = Some l" and "get_requests_endpoint e st q = Inr out"
  shows "1 \<le> l \<and> l \<le> 25"
  using assms
  by (auto simp: get_requests_endpoint_def int_param_def valid_PageLimit_def
           split: sum.splits option.splits if_splits)

lemma endpoint_page_positive:
  assumes "get_requests_endpoint e st q = Inr out"
  shows "1 \<le> (case q_page q of None \<Rightarrow> 1 | Some p \<Rightarrow> p)
       \<and> out = get_requests e st
                 (case q_page q of None \<Rightarrow> 1 | Some p \<Rightarrow> p)
                 (case q_limit q of None \<Rightarrow> 50 | Some l \<Rightarrow> l)
                 (q_status q) (q_search q) (q_region q)
                 (default_to (lit ''default'') (q_sort_by q))
                 (default_to (lit ''desc'') (q_order q))"
  using assms
  by (auto simp: get_requests_endpoint_def int_param_def valid_PageNumber_def
           split: sum.splits option.splits if_splits)


section \<open>UTF-8: decoding, then encoding, gives the bytes back\<close>

lemma qr_div: "r < b \<Longrightarrow> (q * b + r) div b = (q::nat)"
  by simp

lemma qr_mod: "r < b \<Longrightarrow> (q * b + r) mod b = (r::nat)"
  by simp

lemma enc_cp_1: "b0 < 128 \<Longrightarrow> enc_cp b0 = Some [b0]"
  by (simp add: enc_cp_def)

lemma enc_cp_2:
  assumes "194 \<le> b0" "b0 < 224" "cont b1"
  shows "enc_cp ((b0 - 192) * 64 + (b1 - 128)) = Some [b0, b1]"
proof -
  define x where "x = b0 - 192"
  define y where "y = b1 - 128"
  have b: "b0 = 192 + x" "b1 = 128 + y" "2 \<le> x" "x < 32" "y < 64"
    using assms by (auto simp: x_def y_def cont_def)
  have "(x * 64 + y) div 64 = x" "(x * 64 + y) mod 64 = y"
    using b by simp_all
  moreover have "128 \<le> x * 64 + y" "x * 64 + y < 2048"
    using b by simp_all
  ultimately show ?thesis
    unfolding x_def [symmetric] y_def [symmetric] using b
    by (simp add: enc_cp_def)
qed

lemma enc_cp_3:
  assumes "224 \<le> b0" "b0 < 240" "cont b1" "cont b2"
    and "2048 \<le> (b0 - 224) * 4096 + (b1 - 128) * 64 + (b2 - 128)"
    and "\<not> (55296 \<le> (b0 - 224) * 4096 + (b1 - 128) * 64 + (b2 - 128)
           \<and> (b0 - 224) * 4096 + (b1 - 128) * 64 + (b2 - 128) < 57344)"
  shows "enc_cp ((b0 - 224) * 4096 + (b1 - 128) * 64 + (b2 - 128)) = Some [b0, b1, b2]"
proof -
  define x where "x = b0 - 224"
  define y where "y = b1 - 128"
  define z where "z = b2 - 128"
  define c where "c = x * 4096 + y * 64 + z"
  have b: "b0 = 224 + x" "b1 = 128 + y" "b2 = 128 + z" "x < 16" "y < 64" "z < 64"
    using assms by (auto simp: x_def y_def z_def cont_def)
  have c: "2048 \<le> c" "\<not> (55296 \<le> c \<and> c < 57344)"
    using assms by (simp_all add: c_def x_def y_def z_def)
  have f1: "c = (x * 64 + y) * 64 + z" by (simp add: c_def)
  have f2: "c = x * 4096 + (y * 64 + z)" by (simp add: c_def)
  have "c < 65536" using b by (simp add: c_def)
  moreover have "c div 4096 = x" using b by (subst f2, intro qr_div) simp
  moreover have "c div 64 = x * 64 + y" using b by (subst f1, intro qr_div) simp
  then have "(c div 64) mod 64 = y" using b by (simp only: qr_mod)
  moreover have "c mod 64 = z" using b by (subst f1, intro qr_mod) simp
  ultimately have "enc_cp c = Some [b0, b1, b2]"
    using b c by (simp add: enc_cp_def)
  then show ?thesis by (simp add: c_def x_def y_def z_def)
qed

lemma enc_cp_4:
  assumes "240 \<le> b0" "b0 < 245" "cont b1" "cont b2" "cont b3"
    and "65536 \<le> (b0 - 240) * 262144 + (b1 - 128) * 4096 + (b2 - 128) * 64 + (b3 - 128)"
    and "(b0 - 240) * 262144 + (b1 - 128) * 4096 + (b2 - 128) * 64 + (b3 - 128) < 1114112"
  shows "enc_cp ((b0 - 240) * 262144 + (b1 - 128) * 4096 + (b2 - 128) * 64 + (b3 - 128))
           = Some [b0, b1, b2, b3]"
proof -
  define x where "x = b0 - 240"
  define y where "y = b1 - 128"
  define z where "z = b2 - 128"
  define w where "w = b3 - 128"
  define c where "c = x * 262144 + y * 4096 + z * 64 + w"
  have b: "b0 = 240 + x" "b1 = 128 + y" "b2 = 128 + z" "b3 = 128 + w"
      "x < 5" "y < 64" "z < 64" "w < 64"
    using assms by (auto simp: x_def y_def z_def w_def cont_def)
  have c: "65536 \<le> c" "c < 1114112"
    using assms by (simp_all add: c_def x_def y_def z_def w_def)
  have f1: "c = ((x * 64 + y) * 64 + z) * 64 + w" by (simp add: c_def)
  have f2: "c = (x * 64 + y) * 4096 + (z * 64 + w)" by (simp add: c_def)
  have f3: "c = x * 262144 + (y * 4096 + z * 64 + w)" by (simp add: c_def)
  have "c div 262144 = x" using b by (subst f3, intro qr_div) simp
  moreover have "c div 4096 = x * 64 + y" using b by (subst f2, intro qr_div) simp
  then have "(c div 4096) mod 64 = y" using b by (simp only: qr_mod)
  moreover have "c div 64 = (x * 64 + y) * 64 + z" using b by (subst f1, intro qr_div) simp
  then have "(c div 64) mod 64 = z" using b by (simp only: qr_mod)
  moreover have "c mod 64 = w" using b by (subst f1, intro qr_mod) simp
  ultimately have "enc_cp c = Some [b0, b1, b2, b3]"
    using b c by (simp add: enc_cp_def)
  then show ?thesis by (simp add: c_def x_def y_def z_def w_def)
qed

lemma if_Some_D:
  assumes "(if P then map_option f x else None) = Some s"
  shows "P \<and> (\<exists>s'. x = Some s' \<and> s = f s')"
  using assms by (auto split: if_splits)

lemma utf8_dec_Cons_cases:
  assumes "utf8_dec (b0 # bs) = Some s"
  obtains
    (one) s' where "b0 < 128" "utf8_dec bs = Some s'" "s = b0 # s'"
  | (two) b1 r s' where "194 \<le> b0" "b0 < 224" "bs = b1 # r" "cont b1"
      "utf8_dec r = Some s'" "s = ((b0 - 192) * 64 + (b1 - 128)) # s'"
  | (three) b1 b2 r s' where "224 \<le> b0" "b0 < 240" "bs = b1 # b2 # r" "cont b1" "cont b2"
      "2048 \<le> (b0 - 224) * 4096 + (b1 - 128) * 64 + (b2 - 128)"
      "\<not> (55296 \<le> (b0 - 224) * 4096 + (b1 - 128) * 64 + (b2 - 128)
          \<and> (b0 - 224) * 4096 + (b1 - 128) * 64 + (b2 - 128) < 57344)"
      "utf8_dec r = Some s'"
      "s = ((b0 - 224) * 4096 + (b1 - 128) * 64 + (b2 - 128)) # s'"
  | (four) b1 b2 b3 r s' where "240 \<le> b0" "b0 < 245" "bs = b1 # b2 # b3 # r"
      "cont b1" "cont b2" "cont b3"
      "65536 \<le> (b0 - 240) * 262144 + (b1 - 128) * 4096 + (b2 - 128) * 64 + (b3 - 128)"
      "(b0 - 240) * 262144 + (b1 - 128) * 4096 + (b2 - 128) * 64 + (b3 - 128) < 1114112"
      "utf8_dec r = Some s'"
      "s = ((b0 - 240) * 262144 + (b1 - 128) * 4096 + (b2 - 128) * 64 + (b3 - 128)) # s'"
proof (cases "b0 < 128")
  case True
  with assms obtain s' where "utf8_dec bs = Some s'" "s = b0 # s'"
    by auto
  with True show ?thesis by (rule one)
next
  case n1: False
  show ?thesis
  proof (cases "194 \<le> b0 \<and> b0 < 224")
    case True
    with n1 assms have e: "(case bs of
           b1 # r \<Rightarrow>
             if cont b1 then map_option ((#) ((b0 - 192) * 64 + (b1 - 128))) (utf8_dec r)
             else None
         | _ \<Rightarrow> None) = Some s"
      by simp
    then obtain b1 r where bs: "bs = b1 # r" by (cases bs) simp_all
    with e have "cont b1" by (simp split: if_splits)
    with e bs obtain s' where "utf8_dec r = Some s'" "s = ((b0 - 192) * 64 + (b1 - 128)) # s'"
      by auto
    with True bs \<open>cont b1\<close> show ?thesis by (intro two) simp_all
  next
    case n2: False
    show ?thesis
    proof (cases "224 \<le> b0 \<and> b0 < 240")
      case True
      with n1 n2 assms have e: "(case bs of
           b1 # b2 # r \<Rightarrow>
             (let c = (b0 - 224) * 4096 + (b1 - 128) * 64 + (b2 - 128)
              in if cont b1 \<and> cont b2 \<and> 2048 \<le> c \<and> \<not> (55296 \<le> c \<and> c < 57344)
                 then map_option ((#) c) (utf8_dec r) else None)
         | _ \<Rightarrow> None) = Some s"
        by simp
      then obtain b1 b2 r where bs: "bs = b1 # b2 # r"
        by (cases bs; cases "tl bs") simp_all
      from if_Some_D [OF e [unfolded bs list.case Let_def]]
      obtain s' where g: "cont b1" "cont b2"
          "2048 \<le> (b0 - 224) * 4096 + (b1 - 128) * 64 + (b2 - 128)"
          "\<not> (55296 \<le> (b0 - 224) * 4096 + (b1 - 128) * 64 + (b2 - 128)
              \<and> (b0 - 224) * 4096 + (b1 - 128) * 64 + (b2 - 128) < 57344)"
          "utf8_dec r = Some s'"
          "s = ((b0 - 224) * 4096 + (b1 - 128) * 64 + (b2 - 128)) # s'"
        by blast
      from True have "224 \<le> b0" "b0 < 240" by simp_all
      then show ?thesis using bs g by (rule three)
    next
      case n3: False
      with n1 n2 assms have r4: "240 \<le> b0 \<and> b0 < 245"
        by (simp split: if_splits)
      with n1 n2 n3 assms have e: "(case bs of
           b1 # b2 # b3 # r \<Rightarrow>
             (let c = (b0 - 240) * 262144 + (b1 - 128) * 4096 + (b2 - 128) * 64 + (b3 - 128)
              in if cont b1 \<and> cont b2 \<and> cont b3 \<and> 65536 \<le> c \<and> c < 1114112
                 then map_option ((#) c) (utf8_dec r) else None)
         | _ \<Rightarrow> None) = Some s"
        by simp
      then obtain b1 b2 b3 r where bs: "bs = b1 # b2 # b3 # r"
        by (cases bs; cases "tl bs"; cases "tl (tl bs)") simp_all
      from if_Some_D [OF e [unfolded bs list.case Let_def]]
      obtain s' where g: "cont b1" "cont b2" "cont b3"
          "65536 \<le> (b0 - 240) * 262144 + (b1 - 128) * 4096 + (b2 - 128) * 64 + (b3 - 128)"
          "(b0 - 240) * 262144 + (b1 - 128) * 4096 + (b2 - 128) * 64 + (b3 - 128) < 1114112"
          "utf8_dec r = Some s'"
          "s = ((b0 - 240) * 262144 + (b1 - 128) * 4096 + (b2 - 128) * 64 + (b3 - 128)) # s'"
        by blast
      from r4 have "240 \<le> b0" "b0 < 245" by simp_all
      then show ?thesis using bs g by (rule four)
    qed
  qed
qed

lemma utf8_dec_enc:
  "utf8_dec bs = Some s \<Longrightarrow> utf8_enc s = Some bs"
proof (induction "length bs" arbitrary: bs s rule: less_induct)
  case less
  show ?case
  proof (cases bs)
    case Nil
    with less.prems show ?thesis by simp
  next
    case (Cons b0 bs')
    with less.prems have "utf8_dec (b0 # bs') = Some s" by simp
    then show ?thesis
    proof (cases rule: utf8_dec_Cons_cases)
      case (one s')
      from less.hyps [OF _ one(2)] Cons have "utf8_enc s' = Some bs'" by simp
      with one Cons show ?thesis by (simp add: enc_cp_1)
    next
      case (two b1 r s')
      from less.hyps [OF _ two(5)] Cons two(3) have "utf8_enc s' = Some r" by simp
      with two Cons show ?thesis by (simp add: enc_cp_2)
    next
      case (three b1 b2 r s')
      from less.hyps [OF _ three(8)] Cons three(3) have "utf8_enc s' = Some r" by simp
      moreover have "enc_cp ((b0 - 224) * 4096 + (b1 - 128) * 64 + (b2 - 128)) = Some [b0, b1, b2]"
        using three by (intro enc_cp_3)
      ultimately show ?thesis using three(3,9) Cons by simp
    next
      case (four b1 b2 b3 r s')
      from less.hyps [OF _ four(9)] Cons four(3) have "utf8_enc s' = Some r" by simp
      moreover have "enc_cp ((b0 - 240) * 262144 + (b1 - 128) * 4096 + (b2 - 128) * 64 + (b3 - 128))
          = Some [b0, b1, b2, b3]"
        using four by (intro enc_cp_4)
      ultimately show ?thesis using four(3,10) Cons by simp
    qed
  qed
qed

lemma scalarI: "c < 65536 \<Longrightarrow> \<not> (55296 \<le> c \<and> c < 57344) \<Longrightarrow> scalar c"
  by (auto simp: scalar_def)

lemma utf8_dec_scalar:
  "utf8_dec bs = Some s \<Longrightarrow> list_all scalar s"
proof (induction "length bs" arbitrary: bs s rule: less_induct)
  case less
  show ?case
  proof (cases bs)
    case Nil
    with less.prems show ?thesis by simp
  next
    case (Cons b0 bs')
    with less.prems have "utf8_dec (b0 # bs') = Some s" by simp
    then show ?thesis
    proof (cases rule: utf8_dec_Cons_cases)
      case (one s')
      from less.hyps [OF _ one(2)] Cons have "list_all scalar s'" by simp
      with one show ?thesis by (simp add: scalar_def)
    next
      case (two b1 r s')
      from less.hyps [OF _ two(5)] Cons two(3) have "list_all scalar s'" by simp
      moreover have "(b0 - 192) * 64 + (b1 - 128) < 2048"
        using two(1,2,4) unfolding cont_def by arith
      ultimately show ?thesis using two(6) by (simp add: scalar_def)
    next
      case (three b1 b2 r s')
      from less.hyps [OF _ three(8)] Cons three(3) have "list_all scalar s'" by simp
      moreover
      have "(b0 - 224) * 4096 + (b1 - 128) * 64 + (b2 - 128) < 65536"
        using three(1,2,4,5) unfolding cont_def by arith
      then have "scalar ((b0 - 224) * 4096 + (b1 - 128) * 64 + (b2 - 128))"
        using three(7) by (rule scalarI)
      ultimately show ?thesis using three(9) by simp
    next
      case (four b1 b2 b3 r s')
      from less.hyps [OF _ four(9)] Cons four(3) have "list_all scalar s'" by simp
      then show ?thesis using four(7,8,10) by (simp add: scalar_def)
    qed
  qed
qed

lemma utf8_roundtrip:
  assumes "utf8_decode bs = Some s"
  shows "utf8_encode s = Some bs"
  using utf8_dec_enc [of "map of_char bs" s] assms
  by (simp add: utf8_decode_def utf8_encode_def comp_def)

section \<open>JSON: parsing what \<open>json.dumps\<close> wrote\<close>

subsection \<open>Strings\<close>

lemma hex_val_hex_digit: "d < 16 \<Longrightarrow> hex_val (hex_digit d) = Some d"
  by (simp add: hex_val_def hex_digit_def)

lemma hex4_value:
  fixes n :: nat
  assumes "n < 65536"
  shows "(n div 4096) * 4096 + ((n div 256) mod 16) * 256 + ((n div 16) mod 16) * 16 + n mod 16 = n"
proof -
  have d1: "n div 4096 = (n div 256) div 16"
    using div_mult2_eq [of n 256 16] by simp
  have d2: "n div 256 = (n div 16) div 16"
    using div_mult2_eq [of n 16 16] by simp
  have a: "n div 256 = (n div 4096) * 16 + (n div 256) mod 16"
    unfolding d1 by simp
  have b: "n div 16 = (n div 256) * 16 + (n div 16) mod 16"
    unfolding d2 by simp
  have c: "n = (n div 16) * 16 + n mod 16"
    by simp
  show ?thesis
    using a b c by linarith
qed

lemma decode_hex4:
  assumes "n < 65536"
  shows "decode_uXXXX (hex4 n @ r) = Some n"
proof -
  have "n div 4096 < 16" using assms by (simp add: div_less_iff_less_mult)
  then show ?thesis
    using hex4_value [OF assms]
    by (simp add: hex4_def hex_val_hex_digit)
qed

lemma drop_hex4 [simp]: "drop 4 (hex4 n @ r) = r"
  by (simp add: hex4_def)

lemma take2_drop_hex4: "take 2 (drop 4 (hex4 n @ a # b # r)) = [a, b]"
  by (simp add: hex4_def)


lemma length_hex4 [simp]: "length (hex4 n) = 4"
  by (simp add: hex4_def)

lemma drop6_hex4: "drop 6 (hex4 n @ a # b # r) = r"
  by (simp add: hex4_def)

lemma drop10_hex4: "drop 10 (hex4 n @ a # b # hex4 m @ r) = r"
  by (simp add: hex4_def)

lemma scanstring_backslash_u:
  "scanstring (92 # 117 # r) =
     (case decode_uXXXX r of
        None \<Rightarrow> None
      | Some uni \<Rightarrow>
          if 55296 \<le> uni \<and> uni \<le> 56319 \<and> take 2 (drop 4 r) = [92, 117] then
            (case decode_uXXXX (drop 6 r) of
               None \<Rightarrow> None
             | Some uni2 \<Rightarrow>
                 if 56320 \<le> uni2 \<and> uni2 \<le> 57343 then
                   cons_str (65536 + ((uni - 55296) * 1024 + (uni2 - 56320)))
                     (scanstring (drop 10 r))
                 else cons_str uni (scanstring (drop 4 r)))
          else cons_str uni (scanstring (drop 4 r)))"
  by simp

lemma scanstring_bmp_escape:
  assumes "c < 65536" and "scalar c"
  shows "scanstring (92 # 117 # hex4 c @ rest) = cons_str c (scanstring rest)"
proof -
  from assms have "c < 55296 \<or> 57344 \<le> c"
    by (auto simp: scalar_def)
  then show ?thesis
    unfolding scanstring_backslash_u
    by (elim disjE) (simp_all add: decode_hex4 [OF assms(1)])
qed

lemma scanstring_surrogate_pair:
  assumes "65536 \<le> c" and "c < 1114112"
  shows "scanstring (92 # 117 # hex4 (55296 + ((c - 65536) div 1024) mod 1024)
                       @ 92 # 117 # hex4 (56320 + (c - 65536) mod 1024) @ rest)
           = cons_str c (scanstring rest)"
proof -
  define n where "n = c - 65536"
  define hi where "hi = 55296 + (n div 1024) mod 1024"
  define lo where "lo = 56320 + n mod 1024"
  have n: "n < 1048576" "c = 65536 + n" using assms by (simp_all add: n_def)
  then have q: "n div 1024 < 1024" by (simp add: div_less_iff_less_mult)
  then have hi: "hi = 55296 + n div 1024" "55296 \<le> hi" "hi \<le> 56319" "hi < 65536"
    by (simp_all add: hi_def)
  have lo: "56320 \<le> lo" "lo \<le> 57343" "lo < 65536" "lo - 56320 = n mod 1024"
    by (simp_all add: lo_def)
  have val: "65536 + ((hi - 55296) * 1024 + (lo - 56320)) = c"
    using hi(1) lo(4) n(2) by simp
  have "scanstring (92 # 117 # hex4 hi @ 92 # 117 # hex4 lo @ rest) = cons_str c (scanstring rest)"
    unfolding scanstring_backslash_u
    using hi(2,3) lo(1,2) val
    by (simp add: decode_hex4 [OF hi(4)] decode_hex4 [OF lo(3)] take2_drop_hex4 drop6_hex4
          drop10_hex4)
  then show ?thesis by (simp add: hi_def lo_def n_def)
qed

lemma scanstring_escape_char:
  assumes "scalar c"
  shows "scanstring (escape_char c @ rest) = cons_str c (scanstring rest)"
proof -
  consider (short) "c = 92 \<or> c = 34 \<or> c = 8 \<or> c = 12 \<or> c = 10 \<or> c = 13 \<or> c = 9"
    | (plain) "c \<noteq> 92" "c \<noteq> 34" "32 \<le> c" "c \<le> 126"
    | (bmp) "c \<noteq> 8" "c \<noteq> 12" "c \<noteq> 10" "c \<noteq> 13" "c \<noteq> 9" "c < 32 \<or> 126 < c" "c < 65536"
    | (astral) "65536 \<le> c"
    by linarith
  then show ?thesis
  proof cases
    case short
    then show ?thesis
      by (elim disjE) (simp_all add: escape_char_def unescape_def)
  next
    case plain
    then show ?thesis by (simp add: escape_char_def)
  next
    case bmp
    then have "escape_char c = 92 # 117 # hex4 c"
      by (auto simp: escape_char_def)
    then show ?thesis
      using scanstring_bmp_escape [OF bmp(7) assms, of rest] by simp
  next
    case astral
    then have "escape_char c = 92 # 117 # hex4 (55296 + ((c - 65536) div 1024) mod 1024)
                       @ 92 # 117 # hex4 (56320 + (c - 65536) mod 1024)"
      by (simp add: escape_char_def Let_def)
    moreover from assms have "c < 1114112" by (simp add: scalar_def)
    ultimately show ?thesis
      using scanstring_surrogate_pair [OF astral, of rest] by simp
  qed
qed

lemma scanstring_escaped:
  assumes "list_all scalar s"
  shows "scanstring (concat (map escape_char s) @ 34 # r) = Some (s, r)"
  using assms
proof (induction s)
  case Nil
  show ?case by simp
next
  case (Cons c s)
  then have "scanstring (escape_char c @ concat (map escape_char s) @ 34 # r)
      = cons_str c (Some (s, r))"
    by (simp add: scanstring_escape_char)
  then show ?case by (simp add: cons_str_def)
qed

lemma scan_encoded_string:
  assumes "list_all scalar s"
  shows "scanstring (tl (encode_basestring_ascii s) @ r) = Some (s, r)"
  using scanstring_escaped [OF assms] by (simp add: encode_basestring_ascii_def)
subsection \<open>Numbers and constants\<close>

lemma takeWhile_digits:
  assumes "list_all is_digit xs" and "\<not> is_digit c"
  shows "takeWhile is_digit (xs @ c # r) = xs"
  using assms by (induction xs) simp_all

lemma dropWhile_digits:
  assumes "list_all is_digit xs" and "\<not> is_digit c"
  shows "dropWhile is_digit (xs @ c # r) = c # r"
  using assms by (induction xs) simp_all

lemma scan_exp_none:
  assumes "c \<noteq> 101" and "c \<noteq> 69"
  shows "scan_exp (c # r) = ([], c # r)"
  using assms by (cases r) (simp_all add: scan_exp_def)

lemma float_repr_parts:
  assumes "float_repr ts"
  obtains d ip fd fp where "ts = d # ip @ 46 # fd # fp" "is_digit d" "list_all is_digit ip"
    "is_digit fd" "list_all is_digit fp" "d = 48 \<longrightarrow> ip = []"
proof -
  define ip where "ip = takeWhile is_digit ts"
  define rest where "rest = dropWhile is_digit ts"
  have ts: "ts = ip @ rest" by (simp add: ip_def rest_def)
  have dig: "list_all is_digit ip"
    unfolding ip_def list_all_iff by (auto dest: set_takeWhileD)
  from assms have a: "ip \<noteq> []" "hd ip = 48 \<Longrightarrow> ip = [48]"
      "case rest of [] \<Rightarrow> False | c # fp \<Rightarrow> c = 46 \<and> fp \<noteq> [] \<and> list_all is_digit fp"
    by (simp_all add: float_repr_def Let_def ip_def rest_def split: if_splits)
  from a(1) obtain d ip' where ip: "ip = d # ip'" by (cases ip) auto
  from a(3) obtain fd fp where rest: "rest = 46 # fd # fp" "list_all is_digit (fd # fp)"
    by (cases rest; cases "tl rest") auto
  show ?thesis
  proof (rule that [of d ip' fd fp])
    show "ts = d # ip' @ 46 # fd # fp" using ts ip rest by simp
    show "is_digit d" "list_all is_digit ip'" using dig ip by simp_all
    show "is_digit fd" "list_all is_digit fp" using rest by simp_all
    show "d = 48 \<longrightarrow> ip' = []" using a(2) ip by simp
  qed
qed

lemma scan_number_float:
  assumes "float_repr ts"
  shows "scan_number (ts @ 125 # r) = Some (PFloat ts, 125 # r)"
proof -
  from assms obtain d ip fd fp where
    p: "ts = d # ip @ 46 # fd # fp" "is_digit d" "list_all is_digit ip"
       "is_digit fd" "list_all is_digit fp" "d = 48 \<longrightarrow> ip = []"
    by (rule float_repr_parts)
  have nd: "\<not> is_digit 46" "\<not> is_digit 125" by (simp_all add: is_digit_def)
  have d45: "d \<noteq> 45" using p(2) by (auto simp: is_digit_def)
  have tw: "takeWhile is_digit (ip @ 46 # fd # fp @ 125 # r) = ip"
    using takeWhile_digits [OF p(3) nd(1)] by simp
  have dw: "dropWhile is_digit (ip @ 46 # fd # fp @ 125 # r) = 46 # fd # fp @ 125 # r"
    using dropWhile_digits [OF p(3) nd(1)] by simp
  have frac: "scan_frac (46 # fd # fp @ 125 # r) = (46 # fd # fp, 125 # r)"
    using p(4) takeWhile_digits [OF p(5) nd(2)] dropWhile_digits [OF p(5) nd(2)]
    by (simp add: scan_frac_def)
  have ex: "scan_exp (125 # r) = ([], 125 # r)"
    by (rule scan_exp_none) simp_all
  show ?thesis
  proof (cases "d = 48")
    case True
    with p(6) have "ip = []" by simp
    with True p(1,2) d45 frac ex show ?thesis
      by (simp add: scan_number_def Let_def)
  next
    case False
    with p(1,2) d45 tw dw frac ex show ?thesis
      by (simp add: scan_number_def Let_def)
  qed
qed

lemma scan_atom_float:
  assumes "float_repr ts"
  shows "scan_atom (ts @ 125 # r) = Some (PFloat ts, 125 # r)"
proof -
  from assms obtain d rest where ts: "ts = d # rest" "is_digit d"
    by (rule float_repr_parts) auto
  then have "d \<noteq> 110" "d \<noteq> 116" "d \<noteq> 102"
    by (auto simp: is_digit_def)
  then have "strip_prefix (lit ''null'') (ts @ 125 # r) = None"
      "strip_prefix (lit ''true'') (ts @ 125 # r) = None"
      "strip_prefix (lit ''false'') (ts @ 125 # r) = None"
    using ts by (simp_all add: lit_def)
  then show ?thesis
    using scan_number_float [OF assms, of r] by (simp add: scan_atom_def)
qed

lemma parse_value_float:
  assumes "float_repr ts"
  shows "parse_value (Suc n) (ts @ 125 # r) = Some (PFloat ts, 125 # r)"
proof -
  from assms obtain d rest where ts: "ts = d # rest" "is_digit d"
    by (rule float_repr_parts) auto
  then have "d \<noteq> 34" "d \<noteq> 123" "d \<noteq> 91"
    by (auto simp: is_digit_def)
  then have "parse_value (Suc n) (d # rest @ 125 # r) = scan_atom (d # rest @ 125 # r)"
    by simp
  then show ?thesis
    using scan_atom_float [OF assms, of r] ts by simp
qed

lemma parse_value_true:
  "parse_value (Suc n) (lit ''true'' @ r) = Some (PBool True, r)"
  by (simp add: lit_def scan_atom_def)

lemma parse_value_string:
  assumes "list_all scalar s"
  shows "parse_value (Suc n) (encode_basestring_ascii s @ r) = Some (PStr s, r)"
  using scanstring_escaped [OF assms, of r]
  by (simp add: encode_basestring_ascii_def)

subsection \<open>Objects\<close>

lemma skip_ws_nonspace:
  assumes "\<not> is_ws c"
  shows "skip_ws (c # r) = c # r"
  using assms by (simp add: skip_ws_def)

lemma skip_ws_space: "skip_ws (32 # r) = skip_ws r"
  by (simp add: skip_ws_def is_ws_def)

lemma skip_ws_value:
  assumes "vt \<noteq> []" and "\<not> is_ws (hd vt)"
  shows "skip_ws (vt @ r) = vt @ r"
  using assms by (cases vt) (simp_all add: skip_ws_def)

lemma parse_members_more:
  assumes "list_all scalar k" and "vt \<noteq> []" and "\<not> is_ws (hd vt)"
      and "parse_value n (vt @ 44 # 32 # 34 # rest) = Some (v, 44 # 32 # 34 # rest)"
  shows "parse_members (Suc n) acc
           (concat (map escape_char k) @ 34 # 58 # 32 # vt @ 44 # 32 # 34 # rest)
         = parse_members n (dict_set acc k v) rest"
proof -
  have "scanstring (concat (map escape_char k) @ 34 # 58 # 32 # vt @ 44 # 32 # 34 # rest)
          = Some (k, 58 # 32 # vt @ 44 # 32 # 34 # rest)"
    by (rule scanstring_escaped [OF assms(1)])
  moreover have "skip_ws (58 # 32 # vt @ 44 # 32 # 34 # rest) = 58 # 32 # vt @ 44 # 32 # 34 # rest"
    by (simp add: skip_ws_def is_ws_def)
  moreover have "skip_ws (32 # vt @ 44 # 32 # 34 # rest) = vt @ 44 # 32 # 34 # rest"
    using skip_ws_value [OF assms(2,3)] by (simp add: skip_ws_space)
  moreover have "skip_ws (44 # 32 # 34 # rest) = 44 # 32 # 34 # rest"
    by (simp add: skip_ws_def is_ws_def)
  moreover have "skip_ws (32 # 34 # rest) = 34 # rest"
    by (simp add: skip_ws_def is_ws_def)
  ultimately show ?thesis
    using assms(4) by simp
qed

lemma parse_members_last:
  assumes "list_all scalar k" and "vt \<noteq> []" and "\<not> is_ws (hd vt)"
      and "parse_value n (vt @ 125 # rest) = Some (v, 125 # rest)"
  shows "parse_members (Suc n) acc (concat (map escape_char k) @ 34 # 58 # 32 # vt @ 125 # rest)
         = Some (PDict (dict_set acc k v), rest)"
proof -
  have "scanstring (concat (map escape_char k) @ 34 # 58 # 32 # vt @ 125 # rest)
          = Some (k, 58 # 32 # vt @ 125 # rest)"
    by (rule scanstring_escaped [OF assms(1)])
  moreover have "skip_ws (58 # 32 # vt @ 125 # rest) = 58 # 32 # vt @ 125 # rest"
    by (simp add: skip_ws_def is_ws_def)
  moreover have "skip_ws (32 # vt @ 125 # rest) = vt @ 125 # rest"
    using skip_ws_value [OF assms(2,3)] by (simp add: skip_ws_space)
  moreover have "skip_ws (125 # rest) = 125 # rest"
    by (simp add: skip_ws_def is_ws_def)
  ultimately show ?thesis
    using assms(4) by simp
qed

subsection \<open>The cache entry\<close>

lemma json_dumps_cache_entry:
  "json_dumps (cache_entry p ts) =
     123 # 34 # concat (map escape_char (lit ''payload'')) @ 34 # 58 # 32 #
       encode_basestring_ascii p @ 44 # 32 # 34 #
       concat (map escape_char (lit ''is_raw'')) @ 34 # 58 # 32 #
       lit ''true'' @ 44 # 32 # 34 #
       concat (map escape_char (lit ''timestamp'')) @ 34 # 58 # 32 # ts @ [125]"
proof -
  have sep: "lit '', '' = [44, 32]" "lit '': '' = [58, 32]"
    by (simp_all add: lit_def)
  show ?thesis
    by (simp add: cache_entry_def encode_basestring_ascii_def sep)
qed

lemma parse_cache_entry:
  assumes "list_all scalar p" and "float_repr ts"
  shows "parse_value (Suc (Suc (Suc (Suc (Suc n))))) (json_dumps (cache_entry p ts) @ r)
           = Some (cache_entry p ts, r)"
proof -
  let ?k1 = "lit ''payload''" and ?k2 = "lit ''is_raw''" and ?k3 = "lit ''timestamp''"
  let ?m3 = "concat (map escape_char ?k3) @ 34 # 58 # 32 # ts @ 125 # r"
  let ?m2 = "concat (map escape_char ?k2) @ 34 # 58 # 32 # lit ''true'' @ 44 # 32 # 34 # ?m3"
  let ?m1 = "concat (map escape_char ?k1) @ 34 # 58 # 32 # encode_basestring_ascii p
               @ 44 # 32 # 34 # ?m2"
  have keys: "list_all scalar ?k1" "list_all scalar ?k2" "list_all scalar ?k3"
    by (simp_all add: lit_def scalar_def)
  have distinct: "?k1 \<noteq> ?k2" "?k1 \<noteq> ?k3" "?k2 \<noteq> ?k3"
    by (simp_all add: lit_def)
  from assms(2) obtain d rest where ts: "ts = d # rest" "is_digit d"
    by (rule float_repr_parts) auto
  then have ts_hd: "ts \<noteq> []" "\<not> is_ws (hd ts)"
    by (auto simp: is_digit_def is_ws_def)
  have true_hd: "lit ''true'' \<noteq> []" "\<not> is_ws (hd (lit ''true''))"
    by (simp_all add: lit_def is_ws_def)
  have str_hd: "encode_basestring_ascii p \<noteq> []" "\<not> is_ws (hd (encode_basestring_ascii p))"
    by (simp_all add: encode_basestring_ascii_def is_ws_def)
  have "parse_members (Suc (Suc n)) [(?k1, PStr p), (?k2, PBool True)] ?m3
      = Some (PDict (dict_set [(?k1, PStr p), (?k2, PBool True)] ?k3 (PFloat ts)), r)"
    by (rule parse_members_last [OF keys(3) ts_hd]) (rule parse_value_float [OF assms(2)])
  then have s3: "parse_members (Suc (Suc n)) [(?k1, PStr p), (?k2, PBool True)] ?m3
      = Some (cache_entry p ts, r)"
    using distinct by (simp add: cache_entry_def)
  have "parse_members (Suc (Suc (Suc n))) [(?k1, PStr p)] ?m2
      = parse_members (Suc (Suc n)) (dict_set [(?k1, PStr p)] ?k2 (PBool True)) ?m3"
    by (rule parse_members_more [OF keys(2) true_hd]) (rule parse_value_true)
  then have s2: "parse_members (Suc (Suc (Suc n))) [(?k1, PStr p)] ?m2 = Some (cache_entry p ts, r)"
    using distinct s3 by simp
  have "parse_members (Suc (Suc (Suc (Suc n)))) [] ?m1
      = parse_members (Suc (Suc (Suc n))) (dict_set [] ?k1 (PStr p)) ?m2"
    by (rule parse_members_more [OF keys(1) str_hd]) (rule parse_value_string [OF assms(1)])
  then have s1: "parse_members (Suc (Suc (Suc (Suc n)))) [] ?m1 = Some (cache_entry p ts, r)"
    using s2 by simp
  have "skip_ws (34 # ?m1) = 34 # ?m1"
    by (simp add: skip_ws_def is_ws_def)
  then have "parse_value (Suc (Suc (Suc (Suc (Suc n))))) (123 # 34 # ?m1) = Some (cache_entry p ts, r)"
    using s1 by simp
  then show ?thesis
    by (simp add: json_dumps_cache_entry)
qed

lemma json_roundtrip_cache_entry:
  assumes "list_all scalar p" and "float_repr ts"
  shows "json_loads (json_dumps (cache_entry p ts)) = Some (cache_entry p ts)"
proof -
  let ?s = "json_dumps (cache_entry p ts)"
  have "5 \<le> length ?s"
    by (simp add: json_dumps_cache_entry)
  then have n: "2 * length ?s + 2 = Suc (Suc (Suc (Suc (Suc (2 * length ?s - 3)))))"
    by simp
  have hd: "skip_ws ?s = ?s"
    by (simp add: json_dumps_cache_entry skip_ws_def is_ws_def)
  have "parse_value (2 * length ?s + 2) (?s @ []) = Some (cache_entry p ts, [])"
    unfolding n by (rule parse_cache_entry [OF assms])
  moreover have "skip_ws [] = []"
    by (simp add: skip_ws_def)
  ultimately show ?thesis
    by (simp add: json_loads_def hd)
qed

section \<open>A miss populates the cache\<close>

lemma utf8_decode_scalar:
  assumes "utf8_decode bs = Some s"
  shows "list_all scalar s"
  using assms utf8_dec_scalar by (simp add: utf8_decode_def)

lemma json_dumps_cache_entry_nonempty: "json_dumps (cache_entry p ts) \<noteq> []"
  by (simp add: json_dumps_cache_entry)

lemma serve_cached_entry:
  assumes "utf8_decode b = Some p" and "float_repr ts"
  shows "serve_cached (json_dumps (cache_entry p ts)) page limit
           = Inr (Response b (lit ''application/json''))"
proof -
  have "json_loads (json_dumps (cache_entry p ts)) = Some (cache_entry p ts)"
    using utf8_decode_scalar [OF assms(1)] assms(2) by (rule json_roundtrip_cache_entry)
  moreover have "lit ''payload'' \<noteq> lit ''is_raw''"
    by (simp add: lit_def)
  moreover have "utf8_encode p = Some b"
    using assms(1) by (rule utf8_roundtrip)
  ultimately show ?thesis
    by (simp add: serve_cached_def cache_entry_def dict_has_def dict_get_def new_response_def)
qed

lemma miss_stores_entry:
  assumes origin: "origin_get e (registry_url e @ path) = Responded resp"
      and status: "status_code resp < 400"
      and utf8: "utf8_decode (content resp) = Some p"
      and miss: "fst (cache_lookup e st (lit ''GET'') (cache_key (lit ''GET'') path)
                  (UpdateCacheFromOrigin (cache_key (lit ''GET'') path) (lit ''GET'') path jd page limit)
                  page limit) = None"
      and wr: "\<not> redis_set_fails e"
  shows "o_result (proxy_request e st (lit ''GET'') path jd page limit)
           = Inr (Response (content resp) (lit ''application/json''))"
    and "o_store (proxy_request e st (lit ''GET'') path jd page limit)
           = st(cache_key (lit ''GET'') path \<mapsto> json_dumps (cache_entry p (clock e)))"
    and "o_trace (proxy_request e st (lit ''GET'') path jd page limit)
           = [RedisGet (cache_key (lit ''GET'') path), OriginGet (registry_url e @ path),
              RedisSet (cache_key (lit ''GET'') path) (json_dumps (cache_entry p (clock e)))]"
proof -
  let ?key = "cache_key (lit ''GET'') path"
  let ?refresh = "UpdateCacheFromOrigin ?key (lit ''GET'') path jd page limit"
  obtain r ts tr where l: "cache_lookup e st (lit ''GET'') ?key ?refresh page limit = (r, ts, tr)"
    by (cases "cache_lookup e st (lit ''GET'') ?key ?refresh page limit") auto
  from cache_lookup_trace [of e st ?key ?refresh page limit] l have tr: "tr = [RedisGet ?key]"
    by simp
  have "proxy_request e st (lit ''GET'') path jd page limit
          = fetch_and_store e st (lit ''GET'') path ?key ts tr"
    using proxy_request_miss [OF miss] l by simp
  then have main: "proxy_request e st (lit ''GET'') path jd page limit
      = \<lparr> o_result = Inr (Response (content resp) (lit ''application/json'')),
          o_tasks = ts,
          o_store = st(?key \<mapsto> json_dumps (cache_entry p (clock e))),
          o_trace = [RedisGet ?key, OriginGet (registry_url e @ path),
                     RedisSet ?key (json_dumps (cache_entry p (clock e)))] \<rparr>"
    using forward_request_ok [OF origin status] utf8 tr wr
    by (simp add: fetch_and_store_def decode_body_def new_response_def redis_set_def Let_def)
  show "o_result (proxy_request e st (lit ''GET'') path jd page limit)
           = Inr (Response (content resp) (lit ''application/json''))"
    and "o_store (proxy_request e st (lit ''GET'') path jd page limit)
           = st(?key \<mapsto> json_dumps (cache_entry p (clock e)))"
    and "o_trace (proxy_request e st (lit ''GET'') path jd page limit)
           = [RedisGet ?key, OriginGet (registry_url e @ path),
              RedisSet ?key (json_dumps (cache_entry p (clock e)))]"
    by (simp_all add: main)
qed

lemma hit_serves_entry:
  assumes "st (cache_key (lit ''GET'') path) = Some (json_dumps (cache_entry p ts))"
      and "utf8_decode b = Some p" and "float_repr ts"
      and "\<not> redis_get_fails e"
  shows "proxy_request e st (lit ''GET'') path jd page limit
           = \<lparr> o_result = Inr (Response b (lit ''application/json'')),
               o_tasks = [UpdateCacheFromOrigin (cache_key (lit ''GET'') path) (lit ''GET'') path
                            jd page limit],
               o_store = st,
               o_trace = [RedisGet (cache_key (lit ''GET'') path)] \<rparr>"
  using assms serve_cached_entry [OF assms(2,3), of page limit]
  by (simp add: proxy_request_def cache_lookup_def redis_get_def Let_def
        json_dumps_cache_entry_nonempty)

text \<open>
  C3. Let the cache hold nothing for the key of a \<open>GET\<close> request, let the origin answer
  with a status below 400 and a body that is UTF-8 text, and let the store accept the
  write (with a clock reading of the usual shape). Then the request returns the body, and
  every later request for the same path, in any environment whose store read works, is
  served from the cache: its only call is the store read, the origin is not asked, a
  background refresh is scheduled, and the body of its response is the same bytes.
\<close>

theorem miss_then_hit:
  assumes origin: "origin_get e (registry_url e @ path) = Responded resp"
      and status: "status_code resp < 400"
      and utf8: "utf8_decode (content resp) = Some p"
      and empty: "st (cache_key (lit ''GET'') path) = None"
      and wr: "\<not> redis_set_fails e"
      and clock: "float_repr (clock e)"
      and rd: "\<not> redis_get_fails e'"
  shows "o_result (proxy_request e st (lit ''GET'') path jd page limit)
           = Inr (Response (content resp) (lit ''application/json''))
       \<and> o_result (proxy_request e' (o_store (proxy_request e st (lit ''GET'') path jd page limit))
                     (lit ''GET'') path jd' page' limit')
           = Inr (Response (content resp) (lit ''application/json''))
       \<and> o_trace (proxy_request e' (o_store (proxy_request e st (lit ''GET'') path jd page limit))
                     (lit ''GET'') path jd' page' limit')
           = [RedisGet (cache_key (lit ''GET'') path)]
       \<and> o_tasks (proxy_request e' (o_store (proxy_request e st (lit ''GET'') path jd page limit))
                     (lit ''GET'') path jd' page' limit')
           = [UpdateCacheFromOrigin (cache_key (lit ''GET'') path) (lit ''GET'') path jd' page' limit']"
proof -
  let ?key = "cache_key (lit ''GET'') path"
  let ?first = "proxy_request e st (lit ''GET'') path jd page limit"
  have miss: "fst (cache_lookup e st (lit ''GET'') ?key
                  (UpdateCacheFromOrigin ?key (lit ''GET'') path jd page limit) page limit) = None"
    using empty by (simp add: cache_lookup_def redis_get_def)
  note first = miss_stores_entry [OF origin status utf8 miss wr]
  have stored: "o_store ?first ?key = Some (json_dumps (cache_entry p (clock e)))"
    by (simp add: first(2))
  have "proxy_request e' (o_store ?first) (lit ''GET'') path jd' page' limit'
           = \<lparr> o_result = Inr (Response (content resp) (lit ''application/json'')),
               o_tasks = [UpdateCacheFromOrigin ?key (lit ''GET'') path jd' page' limit'],
               o_store = o_store ?first,
               o_trace = [RedisGet ?key] \<rparr>"
    using stored utf8 clock rd by (rule hit_serves_entry)
  with first(1) show ?thesis by simp
qed

theorem miss_then_hit_witness:
  "origin_get (sample_env (Responded plain_text_response))
       (registry_url (sample_env (Responded plain_text_response)) @ lit ''/api/news'')
     = Responded plain_text_response
   \<and> status_code plain_text_response < 400
   \<and> utf8_decode (content plain_text_response) = Some (lit ''hello'')
   \<and> \<not> redis_set_fails (sample_env (Responded plain_text_response))
   \<and> float_repr (clock (sample_env (Responded plain_text_response)))
   \<and> \<not> redis_get_fails (sample_env (RequestError (lit ''connection refused'')))
   \<and> o_result (proxy_request (sample_env (Responded plain_text_response)) Map.empty (lit ''GET'')
         (lit ''/api/news'') None None None)
       = Inr (Response (content plain_text_response) (lit ''application/json''))
   \<and> o_result (proxy_request (sample_env (RequestError (lit ''connection refused'')))
         (o_store (proxy_request (sample_env (Responded plain_text_response)) Map.empty (lit ''GET'')
            (lit ''/api/news'') None None None))
         (lit ''GET'') (lit ''/api/news'') None (Some 1) (Some 10))
       = Inr (Response (content plain_text_response) (lit ''application/json''))
   \<and> o_trace (proxy_request (sample_env (RequestError (lit ''connection refused'')))
         (o_store (proxy_request (sample_env (Responded plain_text_response)) Map.empty (lit ''GET'')
            (lit ''/api/news'') None None None))
         (lit ''GET'') (lit ''/api/news'') None (Some 1) (Some 10))
       = [RedisGet (cache_key (lit ''GET'') (lit ''/api/news''))]"
proof -
  let ?e = "sample_env (Responded plain_text_response)"
  let ?e' = "sample_env (RequestError (lit ''connection refused''))"
  have 1: "origin_get ?e (registry_url ?e @ lit ''/api/news'') = Responded plain_text_response"
    by (simp add: sample_env_def)
  have 2: "status_code plain_text_response < 400"
    by (simp add: plain_text_response_def http_response_def)
  have 3: "utf8_decode (content plain_text_response) = Some (lit ''hello'')"
    by code_simp
  have 4: "(Map.empty :: store) (cache_key (lit ''GET'') (lit ''/api/news'')) = None"
    by simp
  have 5: "\<not> redis_set_fails ?e"
    by (simp add: sample_env_def)
  have 6: "float_repr (clock ?e)"
    by code_simp
  have 7: "\<not> redis_get_fails ?e'"
    by (simp add: sample_env_def)
  from miss_then_hit [OF 1 2 3 4 5 6 7, of None None None None "Some 1" "Some 10"] 1 2 3 5 6 7
  show ?thesis by blast
qed

section \<open>Cache failures degrade to a miss\<close>

lemma forward_request_env:
  assumes "registry_url e' = registry_url e" and "origin_get e' = origin_get e"
    and "status_phrase e' = status_phrase e"
  shows "forward_request e' method path raw = forward_request e method path raw"
proof -
  have h: "http_exception e' = http_exception e"
    using assms(3) by (simp add: http_exception_def fun_eq_iff)
  show ?thesis
    unfolding forward_request_def h assms(1) assms(2) by (rule refl)
qed

lemma fetch_and_store_result:
  "o_result (fetch_and_store e st method path key ts tr) =
     (case fst (forward_request e method path True) of
        Inl ex \<Rightarrow> Inl ex
      | Inr b \<Rightarrow> new_response b (lit ''application/json''))"
  by (simp add: fetch_and_store_def Let_def split: prod.splits sum.splits)

lemma forward_request_trace:
  "snd (forward_request e (lit ''GET'') path raw) = [OriginGet (registry_url e @ path)]"
  by (simp add: forward_request_def Let_def split: origin_outcome.splits sum.splits)

lemma fetch_and_store_trace:
  "\<exists>rest. o_trace (fetch_and_store e st (lit ''GET'') path key ts tr)
             = tr @ OriginGet (registry_url e @ path) # rest"
proof (cases "forward_request e (lit ''GET'') path True")
  case (Pair res tr2)
  with forward_request_trace [of e path True] have "tr2 = [OriginGet (registry_url e @ path)]"
    by simp
  with Pair show ?thesis
    by (cases res) (simp_all add: fetch_and_store_def Let_def split: prod.splits)
qed

lemma unreadable_lookup:
  assumes "redis_get_fails e \<or> (\<exists>cached. st key = Some cached \<and> json_loads cached = None)"
  shows "fst (cache_lookup e st (lit ''GET'') key refresh page limit) = None"
  using assms
  by (auto simp: cache_lookup_def redis_get_def serve_cached_def)

text \<open>
  C1 as stated. The claim that every stored value which is not a JSON envelope is treated as a miss
  fails: the stored text \<open>[1, 2]\<close> is valid JSON but no envelope, and the request is
  answered with that list; the origin is not asked (the only call is the store read) and
  the entry stays as it was, although the origin would have answered.
\<close>

theorem non_envelope_value_counterexample:
  "json_loads (lit ''[1, 2]'') = Some (PList [PInt 1, PInt 2])
   \<and> o_result (proxy_request (sample_env (Responded plain_text_response)) list_store (lit ''GET'')
         (lit ''/api/news'') None None None)
       = Inr (Returned (PList [PInt 1, PInt 2]))
   \<and> o_trace (proxy_request (sample_env (Responded plain_text_response)) list_store (lit ''GET'')
         (lit ''/api/news'') None None None)
       = [RedisGet (lit ''GET:/api/news'')]
   \<and> o_store (proxy_request (sample_env (Responded plain_text_response)) list_store (lit ''GET'')
         (lit ''/api/news'') None None None) (lit ''GET:/api/news'')
       = Some (lit ''[1, 2]'')
   \<and> o_result first_visit = Inr (Response ''hello'' (lit ''application/json''))"
  by code_simp

text \<open>
  C1 (amended). For a \<open>GET\<close> request, when the store read raises or the stored text is
  not valid JSON (\<open>json.loads\<close> raises): the reply is exactly the reply of the same request
  on a store without the entry and with a working read; the origin is fetched
  synchronously right after the store read; the request fails only with the failure of
  the origin; and when the origin answers below 400 with a UTF-8 body and the store
  accepts the write, the entry of the key is overwritten with the encoding of an envelope
  of that body, which \<open>json.loads\<close> reads back (for a clock reading of the usual shape).
\<close>

theorem unreadable_cache_is_miss:
  assumes "redis_get_fails e
           \<or> (\<exists>cached. st (cache_key (lit ''GET'') path) = Some cached \<and> json_loads cached = None)"
  shows "o_result (proxy_request e st (lit ''GET'') path jd page limit)
           = o_result (proxy_request (e\<lparr>redis_get_fails := False\<rparr>)
                         (st(cache_key (lit ''GET'') path := None)) (lit ''GET'') path jd page limit)
       \<and> (\<exists>rest. o_trace (proxy_request e st (lit ''GET'') path jd page limit)
                   = RedisGet (cache_key (lit ''GET'') path) # OriginGet (registry_url e @ path) # rest)
       \<and> (\<forall>ex. o_result (proxy_request e st (lit ''GET'') path jd page limit) = Inl ex \<longrightarrow>
              fst (forward_request e (lit ''GET'') path True) = Inl ex)
       \<and> (\<forall>resp p. origin_get e (registry_url e @ path) = Responded resp \<and> status_code resp < 400
              \<and> utf8_decode (content resp) = Some p \<and> \<not> redis_set_fails e \<longrightarrow>
            o_store (proxy_request e st (lit ''GET'') path jd page limit) (cache_key (lit ''GET'') path)
              = Some (json_dumps (cache_entry p (clock e)))
            \<and> (float_repr (clock e) \<longrightarrow>
                 json_loads (json_dumps (cache_entry p (clock e))) = Some (cache_entry p (clock e))))"
proof -
  let ?key = "cache_key (lit ''GET'') path"
  let ?refresh = "UpdateCacheFromOrigin ?key (lit ''GET'') path jd page limit"
  let ?e0 = "e\<lparr>redis_get_fails := False\<rparr>"
  let ?st0 = "st(?key := None)"
  let ?run = "proxy_request e st (lit ''GET'') path jd page limit"
  have miss: "fst (cache_lookup e st (lit ''GET'') ?key ?refresh page limit) = None"
    using assms by (rule unreadable_lookup)
  obtain r ts tr where l: "cache_lookup e st (lit ''GET'') ?key ?refresh page limit = (r, ts, tr)"
    by (cases "cache_lookup e st (lit ''GET'') ?key ?refresh page limit") auto
  from cache_lookup_trace [of e st ?key ?refresh page limit] l have tr: "tr = [RedisGet ?key]"
    by simp
  have run: "?run = fetch_and_store e st (lit ''GET'') path ?key ts tr"
    using proxy_request_miss [OF miss] l by simp
  have miss0: "fst (cache_lookup ?e0 ?st0 (lit ''GET'') ?key ?refresh page limit) = None"
    by (simp add: cache_lookup_def redis_get_def)
  obtain r0 ts0 tr0 where
    l0: "cache_lookup ?e0 ?st0 (lit ''GET'') ?key ?refresh page limit = (r0, ts0, tr0)"
    by (cases "cache_lookup ?e0 ?st0 (lit ''GET'') ?key ?refresh page limit") auto
  have run0: "proxy_request ?e0 ?st0 (lit ''GET'') path jd page limit
      = fetch_and_store ?e0 ?st0 (lit ''GET'') path ?key ts0 tr0"
    using proxy_request_miss [OF miss0] l0 by simp
  have fwd: "forward_request ?e0 (lit ''GET'') path True = forward_request e (lit ''GET'') path True"
    by (rule forward_request_env) simp_all
  have res: "o_result ?run =
     (case fst (forward_request e (lit ''GET'') path True) of
        Inl ex \<Rightarrow> Inl ex
      | Inr b \<Rightarrow> new_response b (lit ''application/json''))"
    by (simp add: run fetch_and_store_result)
  have a: "o_result ?run = o_result (proxy_request ?e0 ?st0 (lit ''GET'') path jd page limit)"
    by (simp add: res run0 fetch_and_store_result fwd)
  have b: "\<exists>rest. o_trace ?run = RedisGet ?key # OriginGet (registry_url e @ path) # rest"
    using fetch_and_store_trace [of e st path ?key ts tr] by (simp add: run tr)
  have c: "\<forall>ex. o_result ?run = Inl ex \<longrightarrow> fst (forward_request e (lit ''GET'') path True) = Inl ex"
  proof (intro allI impI)
    fix ex
    assume "o_result ?run = Inl ex"
    then show "fst (forward_request e (lit ''GET'') path True) = Inl ex"
      unfolding res
      by (auto simp: forward_request_def Let_def new_response_def
               split: sum.splits origin_outcome.splits if_splits)
  qed
  have d: "\<forall>resp p. origin_get e (registry_url e @ path) = Responded resp \<and> status_code resp < 400
              \<and> utf8_decode (content resp) = Some p \<and> \<not> redis_set_fails e \<longrightarrow>
            o_store ?run ?key = Some (json_dumps (cache_entry p (clock e)))
            \<and> (float_repr (clock e) \<longrightarrow>
                 json_loads (json_dumps (cache_entry p (clock e))) = Some (cache_entry p (clock e)))"
  proof (intro allI impI)
    fix resp p
    assume h: "origin_get e (registry_url e @ path) = Responded resp \<and> status_code resp < 400
              \<and> utf8_decode (content resp) = Some p \<and> \<not> redis_set_fails e"
    then have h: "origin_get e (registry_url e @ path) = Responded resp" "status_code resp < 400"
        "utf8_decode (content resp) = Some p" "\<not> redis_set_fails e"
      by blast+
    have "o_store ?run = st(?key \<mapsto> json_dumps (cache_entry p (clock e)))"
      by (rule miss_stores_entry(2) [OF h(1,2,3) miss h(4)])
    moreover have "float_repr (clock e) \<longrightarrow>
        json_loads (json_dumps (cache_entry p (clock e))) = Some (cache_entry p (clock e))"
      using h utf8_decode_scalar json_roundtrip_cache_entry by blast
    ultimately show "o_store ?run ?key = Some (json_dumps (cache_entry p (clock e)))
            \<and> (float_repr (clock e) \<longrightarrow>
                 json_loads (json_dumps (cache_entry p (clock e))) = Some (cache_entry p (clock e)))"
      by simp
  qed
  from a b c d show ?thesis by blast
qed

theorem unreadable_cache_is_miss_witness:
  "garbage_store (cache_key (lit ''GET'') (lit ''/api/news'')) = Some (lit ''<<not json>>'')
   \<and> json_loads (lit ''<<not json>>'') = None
   \<and> origin_get (sample_env (Responded plain_text_response))
         (registry_url (sample_env (Responded plain_text_response)) @ lit ''/api/news'')
       = Responded plain_text_response
   \<and> status_code plain_text_response < 400
   \<and> utf8_decode (content plain_text_response) = Some (lit ''hello'')
   \<and> \<not> redis_set_fails (sample_env (Responded plain_text_response))
   \<and> float_repr (clock (sample_env (Responded plain_text_response)))
   \<and> o_result (proxy_request (sample_env (Responded plain_text_response)) garbage_store (lit ''GET'')
         (lit ''/api/news'') None None None)
       = o_result (proxy_request ((sample_env (Responded plain_text_response))\<lparr>redis_get_fails := False\<rparr>)
           (garbage_store(cache_key (lit ''GET'') (lit ''/api/news'') := None)) (lit ''GET'')
           (lit ''/api/news'') None None None)
   \<and> o_store (proxy_request (sample_env (Responded plain_text_response)) garbage_store (lit ''GET'')
         (lit ''/api/news'') None None None) (cache_key (lit ''GET'') (lit ''/api/news''))
       = Some (json_dumps (cache_entry (lit ''hello'')
                 (clock (sample_env (Responded plain_text_response)))))
   \<and> json_loads (json_dumps (cache_entry (lit ''hello'')
                 (clock (sample_env (Responded plain_text_response)))))
       = Some (cache_entry (lit ''hello'') (clock (sample_env (Responded plain_text_response))))"
proof -
  let ?e = "sample_env (Responded plain_text_response)"
  let ?p = "lit ''/api/news''"
  have 1: "garbage_store (cache_key (lit ''GET'') ?p) = Some (lit ''<<not json>>'')"
    by code_simp
  have 2: "json_loads (lit ''<<not json>>'') = None"
    by code_simp
  have 3: "origin_get ?e (registry_url ?e @ ?p) = Responded plain_text_response"
    by (simp add: sample_env_def)
  have 4: "status_code plain_text_response < 400"
    by (simp add: plain_text_response_def http_response_def)
  have 5: "utf8_decode (content plain_text_response) = Some (lit ''hello'')"
    by code_simp
  have 6: "\<not> redis_set_fails ?e"
    by (simp add: sample_env_def)
  have 7: "float_repr (clock ?e)"
    by code_simp
  have hyp: "redis_get_fails ?e
      \<or> (\<exists>cached. garbage_store (cache_key (lit ''GET'') ?p) = Some cached \<and> json_loads cached = None)"
    using 1 2 by blast
  note th = unreadable_cache_is_miss [where e = ?e and st = garbage_store and path = ?p
      and jd = None and page = None and limit = None, OF hyp]
  from th have a: "o_result (proxy_request ?e garbage_store (lit ''GET'') ?p None None None)
       = o_result (proxy_request (?e\<lparr>redis_get_fails := False\<rparr>)
           (garbage_store(cache_key (lit ''GET'') ?p := None)) (lit ''GET'') ?p None None None)"
    by blast
  from th 3 4 5 6 7 have b: "o_store (proxy_request ?e garbage_store (lit ''GET'') ?p None None None)
         (cache_key (lit ''GET'') ?p) = Some (json_dumps (cache_entry (lit ''hello'') (clock ?e)))
     \<and> json_loads (json_dumps (cache_entry (lit ''hello'') (clock ?e)))
       = Some (cache_entry (lit ''hello'') (clock ?e))"
    by blast
  from 1 2 3 4 5 6 7 a b show ?thesis by blast
qed

section \<open>Cache keys\<close>

lemma digits_val_snoc: "digits_val (xs @ [d]) = 10 * digits_val xs + (d - 48)"
  by (simp add: digits_val_def)

lemma digits_val_digits: "digits_val (digits n) = n"
proof (induction n rule: digits.induct)
  case (1 n)
  show ?case
  proof (cases "n < 10")
    case True
    then show ?thesis by (subst digits.simps) (simp add: digits_val_def)
  next
    case False
    with "1.IH" have "digits_val (digits (n div 10)) = n div 10" by simp
    with False show ?thesis
      by (subst digits.simps) (simp add: digits_val_snoc)
  qed
qed

lemma digits_are_digits: "list_all is_digit (digits n)"
proof (induction n rule: digits.induct)
  case (1 n)
  show ?case
  proof (cases "n < 10")
    case True
    then show ?thesis by (subst digits.simps) (simp add: is_digit_def)
  next
    case False
    with "1.IH" have "list_all is_digit (digits (n div 10))" by simp
    moreover have "n mod 10 < 10" by simp
    then have "is_digit (48 + n mod 10)" unfolding is_digit_def by linarith
    ultimately show ?thesis using False
      by (subst digits.simps) simp
  qed
qed

lemma digits_nonempty: "digits n \<noteq> []"
  by (subst digits.simps) simp

lemma int_of_str_str_int: "int_of_str (str_int i) = i"
proof (cases "i < 0")
  case True
  then show ?thesis
    by (simp add: str_int_def int_of_str_def digits_val_digits)
next
  case False
  obtain c r where d: "digits (nat i) = c # r"
    using digits_nonempty [of "nat i"] by (cases "digits (nat i)") auto
  with digits_are_digits [of "nat i"] have "is_digit c" by simp
  then have "c \<noteq> 45" by (auto simp: is_digit_def)
  with False d digits_val_digits [of "nat i"] show ?thesis
    by (simp add: str_int_def int_of_str_def)
qed

lemma str_int_inject: "str_int i = str_int j \<Longrightarrow> i = j"
  by (metis int_of_str_str_int)

lemma no_amp_str_int: "no_amp (str_int i)"
proof -
  have "38 \<notin> set (digits n)" for n
    using digits_are_digits [of n] by (auto simp: list_all_iff is_digit_def)
  then show ?thesis by (simp add: no_amp_def str_int_def)
qed

lemma split_amp_nonempty: "split_amp s \<noteq> []"
  by (induction s) (auto split: list.splits)

lemma split_amp_no_amp:
  assumes "no_amp a"
  shows "split_amp a = [a]"
  using assms by (induction a) (auto simp: no_amp_def split: list.splits)

lemma split_amp_append:
  assumes "no_amp a"
  shows "split_amp (a @ 38 # r) = a # split_amp r"
  using assms by (induction a) (auto simp: no_amp_def split: list.splits)

lemma split_amp_join:
  assumes "list_all no_amp segs" and "no_amp d"
  shows "split_amp (d @ concat (map ((#) 38) segs)) = d # segs"
  using assms
proof (induction segs arbitrary: d)
  case Nil
  then show ?case by (simp add: split_amp_no_amp)
next
  case (Cons s segs)
  then have "split_amp (s @ concat (map ((#) 38) segs)) = s # segs"
    by simp
  with Cons.prems show ?case
    by (simp add: split_amp_append)
qed

lemma no_amp_append: "no_amp (a @ b) \<longleftrightarrow> no_amp a \<and> no_amp b"
  by (auto simp: no_amp_def)

lemma requests_path_segments:
  "requests_path page limit status search region sort_by order' =
     (lit ''/api/requests?page='' @ str_int page)
       @ concat (map ((#) 38)
           ([lit ''limit='' @ str_int limit, lit ''sort_by='' @ sort_by, lit ''order='' @ order']
            @ filter_segment (lit ''status='') status
            @ filter_segment (lit ''search='') search
            @ filter_segment (lit ''region='') region))"
  by (simp add: requests_path_def filter_segment_def effective_def lit_def split: option.splits)

lemma no_amp_filter_segment:
  assumes "opt_no_amp v" and "no_amp name"
  shows "list_all no_amp (filter_segment name v)"
  using assms
  by (auto simp: filter_segment_def effective_def opt_no_amp_def no_amp_append
           split: option.splits if_splits)

lemma split_requests_path:
  assumes "no_amp sort_by" "no_amp order'"
      and "opt_no_amp status" "opt_no_amp search" "opt_no_amp region"
  shows "split_amp (requests_path page limit status search region sort_by order') =
     [lit ''/api/requests?page='' @ str_int page,
      lit ''limit='' @ str_int limit, lit ''sort_by='' @ sort_by, lit ''order='' @ order']
     @ filter_segment (lit ''status='') status
     @ filter_segment (lit ''search='') search
     @ filter_segment (lit ''region='') region"
proof -
  have names: "no_amp (lit ''/api/requests?page='')" "no_amp (lit ''limit='')"
      "no_amp (lit ''sort_by='')" "no_amp (lit ''order='')" "no_amp (lit ''status='')"
      "no_amp (lit ''search='')" "no_amp (lit ''region='')"
    by (simp_all add: no_amp_def lit_def)
  have "list_all no_amp
          ([lit ''limit='' @ str_int limit, lit ''sort_by='' @ sort_by, lit ''order='' @ order']
            @ filter_segment (lit ''status='') status
            @ filter_segment (lit ''search='') search
            @ filter_segment (lit ''region='') region)"
    using assms names by (simp add: no_amp_append no_amp_str_int no_amp_filter_segment)
  moreover have "no_amp (lit ''/api/requests?page='' @ str_int page)"
    using names by (simp add: no_amp_append no_amp_str_int)
  ultimately show ?thesis
    unfolding requests_path_segments by (simp only: split_amp_join append_Cons append_Nil)
qed

lemma filter_segments_inject:
  assumes "filter_segment (lit ''status='') a @ filter_segment (lit ''search='') b
             @ filter_segment (lit ''region='') c
           = filter_segment (lit ''status='') a' @ filter_segment (lit ''search='') b'
             @ filter_segment (lit ''region='') c'"
  shows "effective a = effective a' \<and> effective b = effective b' \<and> effective c = effective c'"
proof -
  have ne: "lit ''status='' @ x \<noteq> lit ''search='' @ y" "lit ''status='' @ x \<noteq> lit ''region='' @ y"
      "lit ''search='' @ x \<noteq> lit ''region='' @ y" for x y
    by (simp_all add: lit_def)
  show ?thesis
    using assms ne ne [symmetric]
    by (cases "effective a"; cases "effective b"; cases "effective c";
        cases "effective a'"; cases "effective b'"; cases "effective c'")
       (simp_all add: filter_segment_def)
qed

lemma cache_key_inject: "cache_key method path = cache_key method path' \<Longrightarrow> path = path'"
  by (simp add: cache_key_def)

text \<open>
  C6 as stated. The claim that requests with different parameter combinations always get different
  keys fails. Values are put into the path unescaped: \<open>sort_by = "a&order=b"\<close> with
  \<open>order = "c"\<close> and \<open>sort_by = "a"\<close> with \<open>order = "b&order=c"\<close> (all accepted by the
  character check) give the same key; and a filter that is present but empty gives the
  key of the request without it.
\<close>

theorem key_collision_counterexample:
  "validate_safe_chars (lit ''a&order=b'') = Inr (lit ''a&order=b'')
   \<and> validate_safe_chars (lit ''b&order=c'') = Inr (lit ''b&order=c'')
   \<and> lit ''a&order=b'' \<noteq> lit ''a''
   \<and> cache_key (lit ''GET'') (requests_path 1 10 None None None (lit ''a&order=b'') (lit ''c''))
       = cache_key (lit ''GET'') (requests_path 1 10 None None None (lit ''a'') (lit ''b&order=c''))
   \<and> Some ([] :: pystr) \<noteq> None
   \<and> cache_key (lit ''GET'') (requests_path 1 10 (Some []) None None (lit ''default'') (lit ''desc''))
       = cache_key (lit ''GET'') (requests_path 1 10 None None None (lit ''default'') (lit ''desc''))"
  by code_simp

text \<open>
  C6 (amended). The key is a function of method and path, so equal inputs give equal keys.
  For two \<open>/api/requests\<close> requests whose text values contain no \<open>&\<close>, equal keys force
  equal \<open>page\<close>, \<open>limit\<close>, \<open>sort_by\<close> and \<open>order\<close>, and equal \<open>status\<close>, \<open>search\<close> and
  \<open>region\<close> filters, where an empty filter counts as an absent one: requests that differ
  in any of these get different keys.
\<close>

theorem requests_key_injective:
  assumes "no_amp sort_by" "no_amp order'"
      and "opt_no_amp status" "opt_no_amp search" "opt_no_amp region"
      and "no_amp sort_by2" "no_amp order2"
      and "opt_no_amp status2" "opt_no_amp search2" "opt_no_amp region2"
      and "cache_key (lit ''GET'') (requests_path page limit status search region sort_by order')
           = cache_key (lit ''GET'')
               (requests_path page2 limit2 status2 search2 region2 sort_by2 order2)"
  shows "page = page2 \<and> limit = limit2 \<and> sort_by = sort_by2 \<and> order' = order2
       \<and> effective status = effective status2
       \<and> effective search = effective search2
       \<and> effective region = effective region2"
proof -
  have "requests_path page limit status search region sort_by order'
          = requests_path page2 limit2 status2 search2 region2 sort_by2 order2"
    using assms(11) by (rule cache_key_inject)
  then have "split_amp (requests_path page limit status search region sort_by order')
          = split_amp (requests_path page2 limit2 status2 search2 region2 sort_by2 order2)"
    by simp
  then have segs:
    "lit ''/api/requests?page='' @ str_int page = lit ''/api/requests?page='' @ str_int page2"
    "lit ''limit='' @ str_int limit = lit ''limit='' @ str_int limit2"
    "lit ''sort_by='' @ sort_by = lit ''sort_by='' @ sort_by2"
    "lit ''order='' @ order' = lit ''order='' @ order2"
    "filter_segment (lit ''status='') status @ filter_segment (lit ''search='') search
       @ filter_segment (lit ''region='') region
     = filter_segment (lit ''status='') status2 @ filter_segment (lit ''search='') search2
       @ filter_segment (lit ''region='') region2"
    unfolding split_requests_path [OF assms(1-5)] split_requests_path [OF assms(6-10)]
    by simp_all
  from segs(1,2) have "page = page2" "limit = limit2"
    by (auto dest: str_int_inject)
  moreover from segs(3,4) have "sort_by = sort_by2" "order' = order2"
    by simp_all
  moreover note filter_segments_inject [OF segs(5)]
  ultimately show ?thesis by blast
qed

theorem requests_key_injective_witness:
  "no_amp (lit ''default'') \<and> no_amp (lit ''desc'')
   \<and> opt_no_amp (Some []) \<and> opt_no_amp (Some (lit ''flood'')) \<and> opt_no_amp None
   \<and> cache_key (lit ''GET'')
        (requests_path 2 10 (Some []) (Some (lit ''flood'')) None (lit ''default'') (lit ''desc''))
      = cache_key (lit ''GET'')
        (requests_path 2 10 None (Some (lit ''flood'')) None (lit ''default'') (lit ''desc''))
   \<and> effective (Some []) = effective None"
proof -
  have 1: "no_amp (lit ''default'')" "no_amp (lit ''desc'')"
    by (simp_all add: no_amp_def lit_def)
  have 2: "opt_no_amp (Some [])" "opt_no_amp (Some (lit ''flood''))" "opt_no_amp None"
    by (simp_all add: opt_no_amp_def no_amp_def lit_def)
  have 3: "cache_key (lit ''GET'')
        (requests_path 2 10 (Some []) (Some (lit ''flood'')) None (lit ''default'') (lit ''desc''))
      = cache_key (lit ''GET'')
        (requests_path 2 10 None (Some (lit ''flood'')) None (lit ''default'') (lit ''desc''))"
    by (simp add: requests_path_def)
  from requests_key_injective [OF 1 2(1,2,3) 1 2(3,2,3) 3] 1 2 3
  show ?thesis by blast
qed

section \<open>The scanner's bound is never the reason for an error\<close>

lemma cons_str_SomeD:
  assumes "cons_str c res = Some (x, r)"
  shows "\<exists>x'. res = Some (x', r)"
  using assms by (cases res) (auto simp: cons_str_def)

lemma scanstring_shorter:
  "scanstring s = Some (x, r) \<Longrightarrow> length r < length s"
proof (induction "length s" arbitrary: s x r rule: less_induct)
  case less
  show ?case
  proof (cases s)
    case Nil
    with less.prems show ?thesis by simp
  next
    case (Cons c cs)
    have step: "length r < length s" if "scanstring t = Some (x', r)" "length t < length s" for t x'
      using less.hyps [OF that(2) that(1)] that(2) by simp
    show ?thesis
    proof (cases "c = 34")
      case True
      with less.prems Cons show ?thesis by simp
    next
      case n34: False
      show ?thesis
      proof (cases "c = 92")
        case False
        with n34 less.prems Cons have "cons_str c (scanstring cs) = Some (x, r)"
          by (simp split: if_splits)
        then obtain x' where "scanstring cs = Some (x', r)"
          by (blast dest: cons_str_SomeD)
        then show ?thesis using Cons by (intro step [of cs x']) simp_all
      next
        case True
        show ?thesis
        proof (cases cs)
          case Nil
          with True less.prems Cons show ?thesis by simp
        next
          case (Cons e t)
          note cs = Cons
          from True less.prems \<open>s = c # cs\<close> cs
          obtain u v where "cons_str u (scanstring v) = Some (x, r)"
            and "v = t \<or> v = drop 4 t \<or> v = drop 10 t"
            by (auto split: if_splits option.splits)
          then obtain x' where "scanstring v = Some (x', r)" "length v \<le> length t"
            by (auto dest: cons_str_SomeD)
          then show ?thesis using \<open>s = c # cs\<close> cs by (intro step [of v x']) simp_all
        qed
      qed
    qed
  qed
qed

lemma skip_ws_length: "length (skip_ws s) \<le> length s"
  by (simp add: skip_ws_def length_dropWhile_le)

lemma strip_prefix_length:
  "strip_prefix p s = Some r \<Longrightarrow> length r + length p = length s"
  by (induction p s rule: strip_prefix.induct) (auto split: if_splits)

lemma scan_frac_length: "scan_frac s = (fp, r) \<Longrightarrow> length r \<le> length s"
  by (auto simp: scan_frac_def split: list.splits if_splits
           intro: le_trans [OF length_dropWhile_le])

lemma scan_exp_length: "scan_exp s = (ep, r) \<Longrightarrow> length r \<le> length s"
  by (auto simp: scan_exp_def split: list.splits if_splits
           intro: le_trans [OF length_dropWhile_le])

lemma scan_number_shorter:
  assumes "scan_number s = Some (v, r)"
  shows "length r < length s"
proof -
  define neg where "neg = (case s of c # r \<Rightarrow> c = 45 | [] \<Rightarrow> False)"
  define s1 where "s1 = (if neg then tl s else s)"
  have l1: "length s1 \<le> length s" by (simp add: s1_def)
  from assms obtain d t where s1: "s1 = d # t" "is_digit d"
    by (cases s1) (auto simp: scan_number_def Let_def neg_def s1_def split: if_splits)
  define s2 where "s2 = (if d = 48 then t else dropWhile is_digit t)"
  have l2: "length s2 \<le> length t" by (simp add: s2_def length_dropWhile_le)
  obtain fp s3 where f: "scan_frac s2 = (fp, s3)" by (cases "scan_frac s2") auto
  obtain ep s4 where e: "scan_exp s3 = (ep, s4)" by (cases "scan_exp s3") auto
  from assms s1 f e have "r = s4"
    by (auto simp: scan_number_def Let_def neg_def [symmetric] s1_def [symmetric]
          s2_def [symmetric] split: if_splits)
  moreover have "length s4 \<le> length s2"
    using scan_frac_length [OF f] scan_exp_length [OF e] by simp
  ultimately show ?thesis using l1 l2 s1 by simp
qed

lemma scan_atom_shorter:
  assumes "scan_atom s = Some (v, r)"
  shows "length r < length s"
proof -
  have a: "length r < length s" if "strip_prefix p s = Some r" "p \<noteq> []" for p
    using strip_prefix_length [OF that(1)] that(2) by (cases p) simp_all
  have ne: "lit ''null'' \<noteq> []" "lit ''true'' \<noteq> []" "lit ''false'' \<noteq> []"
      "lit ''NaN'' \<noteq> []" "lit ''Infinity'' \<noteq> []" "lit ''-Infinity'' \<noteq> []"
    by (simp_all add: lit_def)
  from assms consider "strip_prefix (lit ''null'') s = Some r"
    | "strip_prefix (lit ''true'') s = Some r"
    | "strip_prefix (lit ''false'') s = Some r"
    | "scan_number s = Some (v, r)"
    | "strip_prefix (lit ''NaN'') s = Some r"
    | "strip_prefix (lit ''Infinity'') s = Some r"
    | "strip_prefix (lit ''-Infinity'') s = Some r"
    by (auto simp: scan_atom_def split: option.splits)
  then show ?thesis
  proof cases
    case 1 then show ?thesis using ne(1) by (rule a)
  next
    case 2 then show ?thesis using ne(2) by (rule a)
  next
    case 3 then show ?thesis using ne(3) by (rule a)
  next
    case 4 then show ?thesis by (rule scan_number_shorter)
  next
    case 5 then show ?thesis using ne(4) by (rule a)
  next
    case 6 then show ?thesis using ne(5) by (rule a)
  next
    case 7 then show ?thesis using ne(6) by (rule a)
  qed
qed

lemma skip_ws_ConsD:
  assumes "skip_ws t = c # r"
  shows "length r < length t"
  using skip_ws_length [of t] assms by simp

lemma parse_shorter_aux:
  "(\<forall>s v r. parse_value n s = Some (v, r) \<longrightarrow> length r < length s)
   \<and> (\<forall>acc s v r. parse_elems n acc s = Some (v, r) \<longrightarrow> length r < length s)
   \<and> (\<forall>acc s v r. parse_members n acc s = Some (v, r) \<longrightarrow> length r < length s)"
proof (induction n)
  case 0
  show ?case by simp
next
  case (Suc n)
  then have ihv: "\<And>s v r. parse_value n s = Some (v, r) \<Longrightarrow> length r < length s"
    and ihe: "\<And>acc s v r. parse_elems n acc s = Some (v, r) \<Longrightarrow> length r < length s"
    and ihm: "\<And>acc s v r. parse_members n acc s = Some (v, r) \<Longrightarrow> length r < length s"
    by blast+
  have v: "length r < length s" if p: "parse_value (Suc n) s = Some (v, r)" for s v r
  proof (cases s)
    case Nil
    with p show ?thesis by simp
  next
    case (Cons c t)
    consider (str) "c = 34" | (obj) "c = 123" | (arr) "c = 91"
      | (atom) "c \<noteq> 34" "c \<noteq> 123" "c \<noteq> 91"
      by blast
    then show ?thesis
    proof cases
      case str
      with p Cons obtain x where "scanstring t = Some (x, r)"
        by auto
      then show ?thesis using Cons by (auto dest: scanstring_shorter)
    next
      case obj
      with p Cons obtain c' r' where w: "skip_ws t = c' # r'"
        by (cases "skip_ws t") auto
      with p Cons obj have "(c' = 125 \<and> r = r') \<or> (c' = 34 \<and> parse_members n [] r' = Some (v, r))"
        by (auto split: if_splits)
      then have "length r \<le> length r'"
        by (auto dest: ihm)
      with skip_ws_ConsD [OF w] Cons show ?thesis by simp
    next
      case arr
      with p Cons obtain c' r' where w: "skip_ws t = c' # r'"
        by (cases "skip_ws t") auto
      with p Cons arr have "(c' = 93 \<and> r = r') \<or> parse_elems n [] (c' # r') = Some (v, r)"
        by (auto split: if_splits)
      then have "length r \<le> length r'"
        by (auto dest: ihe)
      with skip_ws_ConsD [OF w] Cons show ?thesis by simp
    next
      case atom
      with p Cons have "scan_atom s = Some (v, r)" by simp
      then show ?thesis by (rule scan_atom_shorter)
    qed
  qed
  have e: "length r < length s" if p: "parse_elems (Suc n) acc s = Some (v, r)" for acc s v r
  proof -
    from p obtain v1 r1 where a: "parse_value n s = Some (v1, r1)"
      by (cases "parse_value n s") auto
    with p obtain c r' where w: "skip_ws r1 = c # r'"
      by (cases "skip_ws r1") auto
    with p a have "(c = 93 \<and> r = r') \<or> parse_elems n (acc @ [v1]) (skip_ws r') = Some (v, r)"
      by (auto split: if_splits)
    then have "length r \<le> length r'"
      using skip_ws_length [of r'] by (auto dest: ihe)
    with skip_ws_ConsD [OF w] ihv [OF a] show ?thesis by simp
  qed
  have m: "length r < length s" if p: "parse_members (Suc n) acc s = Some (v, r)" for acc s v r
  proof -
    from p obtain key r0 where a: "scanstring s = Some (key, r0)"
      by (cases "scanstring s") auto
    with p obtain c r1 where w1: "skip_ws r0 = c # r1"
      by (cases "skip_ws r0") auto
    with p a have c: "c = 58"
      by (auto split: if_splits)
    with p a w1 obtain v1 r2 where b: "parse_value n (skip_ws r1) = Some (v1, r2)"
      by (cases "parse_value n (skip_ws r1)") auto
    with p a w1 c obtain c' r3 where w2: "skip_ws r2 = c' # r3"
      by (cases "skip_ws r2") auto
    have "length r \<le> length r3"
    proof (cases "c' = 125")
      case True
      with p a w1 c b w2 show ?thesis by simp
    next
      case False
      with p a w1 c b w2 have c44: "c' = 44"
        by (auto split: if_splits)
      with p a w1 c b w2 obtain q r4 where w3: "skip_ws r3 = q # r4"
        by (cases "skip_ws r3") auto
      with p a w1 c b w2 c44 have "parse_members n (dict_set acc key v1) r4 = Some (v, r)"
        by (auto split: if_splits)
      from ihm [OF this] skip_ws_ConsD [OF w3] show ?thesis by simp
    qed
    moreover have "length r2 < length r1"
      using ihv [OF b] skip_ws_length [of r1] by simp
    ultimately show ?thesis
      using scanstring_shorter [OF a] skip_ws_ConsD [OF w1] skip_ws_ConsD [OF w2] by simp
  qed
  from v e m show ?case by blast
qed

lemma parse_value_shorter: "parse_value n s = Some (v, r) \<Longrightarrow> length r < length s"
  using parse_shorter_aux by blast

lemma parse_fuel_aux:
  "(\<forall>s m. 2 * length s < n \<and> n \<le> m \<longrightarrow> parse_value m s = parse_value n s)
   \<and> (\<forall>acc s m. 2 * length s + 1 < n \<and> n \<le> m \<longrightarrow> parse_elems m acc s = parse_elems n acc s)
   \<and> (\<forall>acc s m. 2 * length s + 1 < n \<and> n \<le> m \<longrightarrow>
          parse_members m acc s = parse_members n acc s)"
proof (induction n)
  case 0
  show ?case by simp
next
  case (Suc n)
  then have ihv: "\<And>s m. 2 * length s < n \<Longrightarrow> n \<le> m \<Longrightarrow> parse_value m s = parse_value n s"
    and ihe: "\<And>acc s m. 2 * length s + 1 < n \<Longrightarrow> n \<le> m \<Longrightarrow>
                parse_elems m acc s = parse_elems n acc s"
    and ihm: "\<And>acc s m. 2 * length s + 1 < n \<Longrightarrow> n \<le> m \<Longrightarrow>
                parse_members m acc s = parse_members n acc s"
    by blast+
  have vS: "parse_value (Suc m) s = parse_value (Suc n) s"
    if b: "2 * length s < Suc n" and le: "n \<le> m" for s m
  proof (cases s)
    case Nil
    then show ?thesis by simp
  next
    case (Cons c t)
    have em: "parse_members m [] r' = parse_members n [] r'" if "skip_ws t = c' # r'" for c' r'
      using skip_ws_ConsD [OF that] b Cons le by (intro ihm) simp_all
    have ee: "parse_elems m [] (c' # r') = parse_elems n [] (c' # r')"
      if "skip_ws t = c' # r'" for c' r'
    proof -
      have "length (c' # r') \<le> length t"
        using skip_ws_length [of t] that by simp
      then show ?thesis using b Cons le by (intro ihe) simp_all
    qed
    show ?thesis
    proof (cases "skip_ws t")
      case Nil
      with Cons show ?thesis by simp
    next
      case (Cons c' r')
      with \<open>s = c # t\<close> em [OF Cons] ee [OF Cons] show ?thesis by simp
    qed
  qed
  have eS: "parse_elems (Suc m) acc s = parse_elems (Suc n) acc s"
    if b: "2 * length s + 1 < Suc n" and le: "n \<le> m" for acc s m
  proof -
    have pv: "parse_value m s = parse_value n s"
      using b le by (intro ihv) simp_all
    have pe: "parse_elems m a (skip_ws r') = parse_elems n a (skip_ws r')"
      if "parse_value n s = Some (v1, r1)" "skip_ws r1 = c # r'" for v1 r1 c r' a
    proof -
      have "length (skip_ws r') < length r1"
        using skip_ws_ConsD [OF that(2)] skip_ws_length [of r'] by simp
      with parse_value_shorter [OF that(1)] b le show ?thesis
        by (intro ihe) simp_all
    qed
    show ?thesis
    proof (cases "parse_value n s")
      case None
      with pv show ?thesis by simp
    next
      case (Some vr)
      obtain v1 r1 where vr: "vr = (v1, r1)" by (cases vr)
      show ?thesis
      proof (cases "skip_ws r1")
        case Nil
        with Some vr pv show ?thesis by simp
      next
        case (Cons c r')
        have "parse_elems m (acc @ [v1]) (skip_ws r') = parse_elems n (acc @ [v1]) (skip_ws r')"
          using Some vr Cons by (intro pe) simp_all
        with Some vr pv Cons show ?thesis by simp
      qed
    qed
  qed
  have mS: "parse_members (Suc m) acc s = parse_members (Suc n) acc s"
    if b: "2 * length s + 1 < Suc n" and le: "n \<le> m" for acc s m
  proof -
    have pv: "parse_value m (skip_ws r1) = parse_value n (skip_ws r1)"
      if "scanstring s = Some (key, r0)" "skip_ws r0 = c # r1" for key r0 c r1
    proof -
      have "length (skip_ws r1) < length r0"
        using skip_ws_ConsD [OF that(2)] skip_ws_length [of r1] by simp
      with scanstring_shorter [OF that(1)] b le show ?thesis
        by (intro ihv) simp_all
    qed
    have pm: "parse_members m a r4 = parse_members n a r4"
      if "scanstring s = Some (key, r0)" "skip_ws r0 = c # r1"
        "parse_value n (skip_ws r1) = Some (v1, r2)" "skip_ws r2 = c' # r3" "skip_ws r3 = q # r4"
      for key r0 c r1 v1 r2 c' r3 q r4 a
    proof -
      have "length r2 < length r0"
        using parse_value_shorter [OF that(3)] skip_ws_length [of r1] skip_ws_ConsD [OF that(2)]
        by simp
      then have "length r4 < length r0"
        using skip_ws_ConsD [OF that(4)] skip_ws_ConsD [OF that(5)] by simp
      with scanstring_shorter [OF that(1)] b le show ?thesis
        by (intro ihm) simp_all
    qed
    show ?thesis
    proof (cases "scanstring s")
      case None
      then show ?thesis by simp
    next
      case (Some kr)
      obtain key r0 where kr: "kr = (key, r0)" by (cases kr)
      show ?thesis
      proof (cases "skip_ws r0")
        case Nil
        with Some kr show ?thesis by simp
      next
        case (Cons c r1)
        note w1 = Cons
        have pv': "parse_value m (skip_ws r1) = parse_value n (skip_ws r1)"
          using Some kr w1 by (intro pv) simp_all
        show ?thesis
        proof (cases "parse_value n (skip_ws r1)")
          case None
          with Some kr w1 pv' show ?thesis by simp
        next
          case (Some vr)
          note val = Some
          obtain v1 r2 where vr: "vr = (v1, r2)" by (cases vr)
          show ?thesis
          proof (cases "skip_ws r2")
            case Nil
            with \<open>scanstring s = Some kr\<close> kr w1 pv' val vr show ?thesis by simp
          next
            case (Cons c' r3)
            note w2 = Cons
            show ?thesis
            proof (cases "skip_ws r3")
              case Nil
              with \<open>scanstring s = Some kr\<close> kr w1 pv' val vr w2 show ?thesis by simp
            next
              case (Cons q r4)
              have "parse_members m (dict_set acc key v1) r4 = parse_members n (dict_set acc key v1) r4"
                using \<open>scanstring s = Some kr\<close> kr w1 val vr w2 Cons by (intro pm) simp_all
              with \<open>scanstring s = Some kr\<close> kr w1 pv' val vr w2 Cons show ?thesis by simp
            qed
          qed
        qed
      qed
    qed
  qed
  show ?case
  proof (intro conjI allI impI)
    fix s :: pystr and m
    assume a: "2 * length s < Suc n \<and> Suc n \<le> m"
    then obtain m' where m': "m = Suc m'" "n \<le> m'" by (cases m) auto
    from a have "2 * length s < Suc n" by simp
    then have "parse_value (Suc m') s = parse_value (Suc n) s" using m'(2) by (rule vS)
    then show "parse_value m s = parse_value (Suc n) s" by (simp only: m'(1))
  next
    fix acc and s :: pystr and m
    assume a: "2 * length s + 1 < Suc n \<and> Suc n \<le> m"
    then obtain m' where m': "m = Suc m'" "n \<le> m'" by (cases m) auto
    from a have "2 * length s + 1 < Suc n" by simp
    then have "parse_elems (Suc m') acc s = parse_elems (Suc n) acc s" using m'(2) by (rule eS)
    then show "parse_elems m acc s = parse_elems (Suc n) acc s" by (simp only: m'(1))
  next
    fix acc and s :: pystr and m
    assume a: "2 * length s + 1 < Suc n \<and> Suc n \<le> m"
    then obtain m' where m': "m = Suc m'" "n \<le> m'" by (cases m) auto
    from a have "2 * length s + 1 < Suc n" by simp
    then have "parse_members (Suc m') acc s = parse_members (Suc n) acc s" using m'(2) by (rule mS)
    then show "parse_members m acc s = parse_members (Suc n) acc s" by (simp only: m'(1))
  qed
qed

text \<open>
  Whatever \<open>json_loads\<close> answers, the scanner answers the same with any larger bound: an
  error of \<open>json_loads\<close> is an error of the text, never of the bound.
\<close>

lemma json_loads_bound_irrelevant:
  assumes "2 * length s + 2 \<le> m"
  shows "parse_value m (skip_ws s) = parse_value (2 * length s + 2) (skip_ws s)"
proof -
  have "2 * length (skip_ws s) < 2 * length s + 2"
    using skip_ws_length [of s] by simp
  with assms parse_fuel_aux [of "2 * length s + 2"] show ?thesis by blast
qed

lemma json_loads_any_bound:
  assumes "2 * length s + 2 \<le> m"
  shows "json_loads s =
           (case parse_value m (skip_ws s) of
              None \<Rightarrow> None
            | Some (v, r) \<Rightarrow> if skip_ws r = [] then Some v else None)"
  by (simp add: json_loads_def json_loads_bound_irrelevant [OF assms])

end
